theory Spec2Isabelle
  imports Complex_Main
begin

section \<open>Three Men's Morris: the rule engine of ThreeMensMorris.cpp\<close>

text \<open>
  The development embeds the game logic of \<^verbatim>\<open>src/ThreeMensMorris.cpp\<close>: the board tables,
  \<^verbatim>\<open>isAdjacent\<close>, \<^verbatim>\<open>computeWinProducts\<close>, \<^verbatim>\<open>checkWin\<close>, \<^verbatim>\<open>getFreeSlotUnderMouse\<close>,
  \<^verbatim>\<open>resetGame\<close>, the mouse-click body of \<^verbatim>\<open>handleEvents\<close> and \<^verbatim>\<open>updateTokens\<close>.

  Conventions of the embedding.
  \<^item> A C++ \<^verbatim>\<open>int\<close> is a HOL \<open>int\<close>; where the source does arithmetic on it the 32-bit
    two's-complement wrap-around is written out (\<open>wrap32\<close>). Signed overflow is formally
    undefined in C++; the wrap is what the usual compilers produce.
  \<^item> A \<^verbatim>\<open>float\<close> is a HOL \<open>real\<close>. All coordinates the rules compare are small integers,
    which floats represent exactly; only the in-flight position of a sliding token is
    rounded by the machine, and no statement below depends on its value.
  \<^item> An out-of-range read of a \<^verbatim>\<open>std::array\<close> or \<^verbatim>\<open>std::vector\<close>, a dangling
    \<^verbatim>\<open>selected\<close> pointer and a remainder by zero are undefined behaviour in C++; the
    functions that can meet them return \<open>None\<close> there.
  \<^item> The sprite map, the log file and the drawing code are presentation and are left out.
    Of a sprite only its position and the size of its texture are kept, since
    \<^verbatim>\<open>getGlobalBounds\<close> is read by the selection rule.
\<close>

subsection \<open>Machine arithmetic\<close>

definition wrap32 :: "int \<Rightarrow> int" where
  "wrap32 x = (x + 2147483648) mod 4294967296 - 2147483648"

definition mul32 :: "int \<Rightarrow> int \<Rightarrow> int" where
  "mul32 a b = wrap32 (a * b)"

definition inc32 :: "int \<Rightarrow> int" where
  "inc32 a = wrap32 (a + 1)"

text \<open>The C++ remainder truncates towards zero: the result has the sign of the dividend.\<close>

definition rem32 :: "int \<Rightarrow> int \<Rightarrow> int" where
  "rem32 a b = sgn a * (\<bar>a\<bar> mod \<bar>b\<bar>)"

text \<open>Checked indexing: \<open>None\<close> stands for the out-of-range read.\<close>

definition at_index :: "'a list \<Rightarrow> int \<Rightarrow> 'a option" where
  "at_index xs i = (if 0 \<le> i \<and> i < int (length xs) then Some (xs ! nat i) else None)"

subsection \<open>Geometry (sf::Vector2f, sf::FloatRect)\<close>

type_synonym Vector2f = "real \<times> real"

definition vsub :: "Vector2f \<Rightarrow> Vector2f \<Rightarrow> Vector2f" where
  "vsub p q = (fst p - fst q, snd p - snd q)"

definition vadd :: "Vector2f \<Rightarrow> Vector2f \<Rightarrow> Vector2f" where
  "vadd p q = (fst p + fst q, snd p + snd q)"

record FloatRect =
  rect_left :: real
  rect_top :: real
  rect_width :: real
  rect_height :: real

definition mkRect :: "real \<Rightarrow> real \<Rightarrow> real \<Rightarrow> real \<Rightarrow> FloatRect" where
  "mkRect l t w h = \<lparr>rect_left = l, rect_top = t, rect_width = w, rect_height = h\<rparr>"

text \<open>\<^verbatim>\<open>sf::Rect<T>::contains\<close> of SFML 2.6: lower edges inclusive, upper edges exclusive.\<close>

definition contains :: "FloatRect \<Rightarrow> Vector2f \<Rightarrow> bool" where
  "contains r p =
     (let minX = min (rect_left r) (rect_left r + rect_width r);
          maxX = max (rect_left r) (rect_left r + rect_width r);
          minY = min (rect_top r) (rect_top r + rect_height r);
          maxY = max (rect_top r) (rect_top r + rect_height r)
      in fst p \<ge> minX \<and> fst p < maxX \<and> snd p \<ge> minY \<and> snd p < maxY)"

subsection \<open>Board tables\<close>

record Slot =
  position :: Vector2f
  prime :: int

definition slots :: "Slot list" where
  "slots =
    [\<lparr>position = (50, 50), prime = 13\<rparr>, \<lparr>position = (300, 50), prime = 3\<rparr>,
     \<lparr>position = (550, 50), prime = 23\<rparr>,
     \<lparr>position = (50, 300), prime = 17\<rparr>, \<lparr>position = (300, 300), prime = 11\<rparr>,
     \<lparr>position = (550, 300), prime = 5\<rparr>,
     \<lparr>position = (50, 550), prime = 29\<rparr>, \<lparr>position = (300, 550), prime = 7\<rparr>,
     \<lparr>position = (550, 550), prime = 19\<rparr>]"

definition winCombos :: "(int \<times> int \<times> int) list" where
  "winCombos =
    [(0, 1, 2), (3, 4, 5), (6, 7, 8),
     (0, 3, 6), (1, 4, 7), (2, 5, 8),
     (0, 4, 8), (2, 4, 6)]"

datatype Player = A | B

datatype GamePhase = Start | About | Instructions | Placement | Movement | Win

subsection \<open>isAdjacent\<close>

definition adjacent :: "int list list" where
  "adjacent =
    [[1, 3, 4],
     [0, 2, 4],
     [1, 5, 4],
     [0, 4, 6],
     [0, 1, 2, 3, 5, 6, 7, 8],
     [2, 4, 8],
     [3, 4, 7],
     [6, 4, 8],
     [4, 5, 7]]"

fun isAdjacent_scan :: "int list \<Rightarrow> int \<Rightarrow> bool" where
  "isAdjacent_scan [] b = False"
| "isAdjacent_scan (n # ns) b = (if n = b then True else isAdjacent_scan ns b)"

definition isAdjacent :: "int \<Rightarrow> int \<Rightarrow> bool option" where
  "isAdjacent a b =
     (case at_index adjacent a of
        None \<Rightarrow> None
      | Some ns \<Rightarrow> Some (isAdjacent_scan ns b))"

text \<open>
  The grid reading of the table, used to state what the table is meant to hold: slot \<open>i\<close>
  sits in row \<open>i div 3\<close> and column \<open>i mod 3\<close>; two slots are line-neighbours when they
  are one step apart along a row or a column.
\<close>

definition line_neighbour :: "int \<Rightarrow> int \<Rightarrow> bool" where
  "line_neighbour a b =
     (\<bar>a div 3 - b div 3\<bar> + \<bar>a mod 3 - b mod 3\<bar> = 1)"

definition slot_ids :: "int list" where
  "slot_ids = [0, 1, 2, 3, 4, 5, 6, 7, 8]"

subsection \<open>Tokens and game state\<close>

text \<open>A texture is kept as its size in pixels (\<^verbatim>\<open>sf::Texture::getSize\<close>).\<close>

type_synonym Texture = "nat \<times> nat"

text \<open>
  \<open>spritePos\<close> and \<open>spriteTex\<close> are what the rules read of \<^verbatim>\<open>Token::sprite\<close>; the other
  fields are those of the struct. \<^verbatim>\<open>targetPos\<close> of a fresh token is the default vector.
\<close>

record Token =
  spritePos :: Vector2f
  spriteTex :: Texture
  slotIndex :: int
  nextSlotIndex :: int
  owner :: Player
  selected :: bool
  moving :: bool
  targetPos :: Vector2f

text \<open>
  The variables of \<^verbatim>\<open>main\<close> that the handlers receive by reference, the global
  \<^verbatim>\<open>startButtonBounds\<close> (the only button rectangle that is reassigned) and whether the
  window is open. The pointer \<^verbatim>\<open>Token* selected\<close> is an index into \<open>tokens\<close>.
\<close>

record Game =
  tokens :: "Token list"
  turn :: Player
  phase :: GamePhase
  selectedTok :: "nat option"
  placedA :: int
  placedB :: int
  startButtonBounds :: FloatRect
  windowOpen :: bool

definition instructionsButtonBounds :: FloatRect where
  "instructionsButtonBounds = mkRect 165 560 275 100"

definition aboutButtonBounds :: FloatRect where
  "aboutButtonBounds = mkRect 165 680 275 100"

definition exitButtonBounds :: FloatRect where
  "exitButtonBounds = mkRect 165 650 275 100"

definition getGlobalBounds :: "Token \<Rightarrow> FloatRect" where
  "getGlobalBounds t =
     mkRect (fst (spritePos t)) (snd (spritePos t))
            (real (fst (spriteTex t))) (real (snd (spriteTex t)))"

definition other :: "Player \<Rightarrow> Player" where
  "other p = (if p = A then B else A)"

subsection \<open>computeWinProducts and checkWin\<close>

fun computeWinProducts :: "(int \<times> int \<times> int) list \<Rightarrow> Slot list \<Rightarrow> int list option" where
  "computeWinProducts [] sl = Some []"
| "computeWinProducts ((c0, c1, c2) # combos) sl =
     (case at_index sl c0 of
        None \<Rightarrow> None
      | Some s0 \<Rightarrow>
          (case at_index sl c1 of
             None \<Rightarrow> None
           | Some s1 \<Rightarrow>
               (case at_index sl c2 of
                  None \<Rightarrow> None
                | Some s2 \<Rightarrow>
                    (case computeWinProducts combos sl of
                       None \<Rightarrow> None
                     | Some products \<Rightarrow>
                         Some (mul32 (mul32 (prime s0) (prime s1)) (prime s2) # products)))))"

text \<open>The first loop of \<^verbatim>\<open>checkWin\<close>: the running product over the player's tokens.\<close>

fun checkWin_product :: "Token list \<Rightarrow> Player \<Rightarrow> int \<Rightarrow> int option" where
  "checkWin_product [] player product = Some product"
| "checkWin_product (t # ts) player product =
     (if owner t = player \<and> slotIndex t \<noteq> -1
      then (case at_index slots (slotIndex t) of
              None \<Rightarrow> None
            | Some s \<Rightarrow> checkWin_product ts player (mul32 product (prime s)))
      else checkWin_product ts player product)"

text \<open>
  The second loop. A zero divisor, and \<^verbatim>\<open>INT_MIN % -1\<close>, are undefined in C++.
\<close>

fun checkWin_scan :: "int \<Rightarrow> int list \<Rightarrow> bool option" where
  "checkWin_scan product [] = Some False"
| "checkWin_scan product (p # ps) =
     (if p = 0 \<or> (product = - 2147483648 \<and> p = - 1) then None
      else if rem32 product p = 0 then Some True
      else checkWin_scan product ps)"

definition checkWin :: "Token list \<Rightarrow> Player \<Rightarrow> int list \<Rightarrow> bool option" where
  "checkWin toks player winProducts =
     (case checkWin_product toks player 1 of
        None \<Rightarrow> None
      | Some product \<Rightarrow> checkWin_scan product winProducts)"

text \<open>\<^verbatim>\<open>winProducts\<close> as \<^verbatim>\<open>main\<close> computes it once at start-up.\<close>

definition mainWinProducts :: "int list" where
  "mainWinProducts =
     (case computeWinProducts winCombos slots of None \<Rightarrow> [] | Some products \<Rightarrow> products)"

text \<open>
  The set reading of a win, for comparison with the prime-product test: the slots on which
  the player has a placed token, and whether they cover one of the eight lines.
\<close>

definition occupiedBy :: "Token list \<Rightarrow> Player \<Rightarrow> int set" where
  "occupiedBy toks player =
     slotIndex ` {t \<in> set toks. owner t = player \<and> slotIndex t \<noteq> -1}"

definition hasLine :: "int set \<Rightarrow> bool" where
  "hasLine S = list_ex (\<lambda>(a, b, c). a \<in> S \<and> b \<in> S \<and> c \<in> S) winCombos"

text \<open>The slot indices of the player's placed tokens, in collection order.\<close>

definition placedSlots :: "Token list \<Rightarrow> Player \<Rightarrow> int list" where
  "placedSlots toks player =
     map slotIndex (filter (\<lambda>t. owner t = player \<and> slotIndex t \<noteq> -1) toks)"

subsection \<open>getFreeSlotUnderMouse\<close>

text \<open>The test of the inner loop: the token sits on slot \<open>i\<close> or is sliding towards it.\<close>

definition occupies :: "Token \<Rightarrow> int \<Rightarrow> bool" where
  "occupies t i = (slotIndex t = i \<or> (moving t \<and> nextSlotIndex t = i))"

definition slotArea :: "Slot \<Rightarrow> FloatRect" where
  "slotArea s = mkRect (fst (position s) - 25) (snd (position s) - 25) 50 50"

fun getFreeSlot_loop :: "int \<Rightarrow> Slot list \<Rightarrow> Vector2f \<Rightarrow> Token list \<Rightarrow> int" where
  "getFreeSlot_loop i [] pos toks = - 1"
| "getFreeSlot_loop i (s # rest) pos toks =
     (let area = slotArea s;
          occupied = list_ex (\<lambda>t. occupies t i) toks
      in if \<not> occupied \<and> contains area pos then i
         else getFreeSlot_loop (i + 1) rest pos toks)"

definition getFreeSlotUnderMouse :: "Vector2f \<Rightarrow> Token list \<Rightarrow> int" where
  "getFreeSlotUnderMouse pos toks = getFreeSlot_loop 0 slots pos toks"

subsection \<open>resetGame\<close>

definition resetGame :: "Game \<Rightarrow> Game" where
  "resetGame g =
     (let g1 = (if phase g = Win
                then g\<lparr>phase := Start, startButtonBounds := mkRect 165 440 275 100\<rparr>
                else g\<lparr>phase := Placement, startButtonBounds := mkRect 340 620 240 80\<rparr>)
      in g1\<lparr>tokens := [], placedA := 0, placedB := 0, turn := A, selectedTok := None\<rparr>)"

subsection \<open>handleEvents\<close>

text \<open>Whether the handler left through one of its \<^verbatim>\<open>return\<close> statements.\<close>

datatype flow = Returned | Continue

text \<open>
  The token built on a placement (source lines 284 to 288): the default member values of
  the struct, the owner, the slot, the texture and the sprite position.
\<close>

definition newToken :: "Texture \<Rightarrow> Player \<Rightarrow> int \<Rightarrow> Slot \<Rightarrow> Token" where
  "newToken tex pl slot s =
     \<lparr>spritePos = vsub (position s) (25, 25), spriteTex = tex,
      slotIndex = slot, nextSlotIndex = - 1, owner = pl,
      selected = False, moving = False, targetPos = (0, 0)\<rparr>"

text \<open>The Placement branch (source lines 281 to 309).\<close>

definition placeClick ::
  "Texture \<Rightarrow> Texture \<Rightarrow> int list \<Rightarrow> Game \<Rightarrow> Vector2f \<Rightarrow> (flow \<times> Game) option" where
  "placeClick tokenATex tokenBTex winProducts g mousePos =
     (let slot = getFreeSlotUnderMouse mousePos (tokens g) in
      if slot \<noteq> - 1 then
        (case at_index slots slot of
           None \<Rightarrow> None
         | Some s \<Rightarrow>
             (let t = newToken (if turn g = A then tokenATex else tokenBTex) (turn g) slot s;
                  toks = tokens g @ [t]
              in (case checkWin toks (turn g) winProducts of
                    None \<Rightarrow> None
                  | Some won \<Rightarrow>
                      if won then
                        Some (Returned,
                              g\<lparr>tokens := toks, phase := Win,
                                startButtonBounds := mkRect 165 510 275 100\<rparr>)
                      else
                        (let g1 = (if turn g = A
                                   then g\<lparr>tokens := toks, placedA := inc32 (placedA g)\<rparr>
                                   else g\<lparr>tokens := toks, placedB := inc32 (placedB g)\<rparr>);
                             g2 = (if placedA g1 = 3 \<and> placedB g1 = 3
                                   then g1\<lparr>phase := Movement\<rparr> else g1)
                         in Some (Continue, g2\<lparr>turn := other (turn g)\<rparr>)))))
      else Some (Continue, g))"

text \<open>
  The selection loop of the Movement branch: the index of the first token of the player
  to move whose sprite contains the click.
\<close>

fun firstHit :: "Player \<Rightarrow> Vector2f \<Rightarrow> Token list \<Rightarrow> nat option" where
  "firstHit pl mousePos [] = None"
| "firstHit pl mousePos (t # ts) =
     (if owner t = pl \<and> contains (getGlobalBounds t) mousePos then Some 0
      else map_option Suc (firstHit pl mousePos ts))"

text \<open>The token the slide starts on (source lines 326 to 329).\<close>

definition beginMove :: "Token \<Rightarrow> int \<Rightarrow> Slot \<Rightarrow> Token" where
  "beginMove sel target s =
     sel\<lparr>moving := True, targetPos := vsub (position s) (25, 25),
         nextSlotIndex := target, selected := False\<rparr>"

text \<open>The Movement branch (source lines 310 to 332).\<close>

definition moveClick :: "Game \<Rightarrow> Vector2f \<Rightarrow> (flow \<times> Game) option" where
  "moveClick g mousePos =
     (case firstHit (turn g) mousePos (tokens g) of
        Some i \<Rightarrow>
          (case selectedTok g of
             None \<Rightarrow>
               Some (Continue,
                     g\<lparr>tokens := (tokens g)[i := (tokens g ! i)\<lparr>selected := True\<rparr>],
                       selectedTok := Some i\<rparr>)
           | Some j \<Rightarrow>
               if j < length (tokens g) then
                 (let toks1 = (tokens g)[j := (tokens g ! j)\<lparr>selected := False\<rparr>]
                  in Some (Continue,
                           g\<lparr>tokens := toks1[i := (toks1 ! i)\<lparr>selected := True\<rparr>],
                             selectedTok := Some i\<rparr>))
               else None)
      | None \<Rightarrow>
          (case selectedTok g of
             None \<Rightarrow> Some (Continue, g)
           | Some j \<Rightarrow>
               if j < length (tokens g) then
                 (let sel = tokens g ! j in
                  if \<not> moving sel then
                    (let target = getFreeSlotUnderMouse mousePos (tokens g) in
                     if target \<noteq> - 1 then
                       (case isAdjacent (slotIndex sel) target of
                          None \<Rightarrow> None
                        | Some adj \<Rightarrow>
                            if adj then
                              (case at_index slots target of
                                 None \<Rightarrow> None
                               | Some s \<Rightarrow>
                                   Some (Continue,
                                         g\<lparr>tokens := (tokens g)[j := beginMove sel target s]\<rparr>))
                            else Some (Continue, g))
                     else Some (Continue, g))
                  else Some (Continue, g))
               else None))"

text \<open>
  The body run on a left mouse press (source lines 243 to 332), in the order of the source.
\<close>

definition handleClick ::
  "Texture \<Rightarrow> Texture \<Rightarrow> int list \<Rightarrow> Game \<Rightarrow> Vector2f \<Rightarrow> (flow \<times> Game) option" where
  "handleClick tokenATex tokenBTex winProducts g mousePos =
     (if (phase g = Instructions \<or> phase g = About)
         \<and> contains (startButtonBounds g) mousePos then
        Some (Returned, g\<lparr>phase := Start, startButtonBounds := mkRect 165 440 275 100\<rparr>)
      else if phase g = Start \<and> contains (startButtonBounds g) mousePos then
        Some (Returned, g\<lparr>phase := Placement, startButtonBounds := mkRect 340 620 240 80\<rparr>)
      else if contains (startButtonBounds g) mousePos then
        Some (Returned, resetGame g)
      else if phase g = Start \<and> contains instructionsButtonBounds mousePos then
        Some (Returned, g\<lparr>phase := Instructions, startButtonBounds := mkRect 165 665 275 100\<rparr>)
      else if phase g = Start \<and> contains aboutButtonBounds mousePos then
        Some (Returned, g\<lparr>phase := About, startButtonBounds := mkRect 165 665 275 100\<rparr>)
      else if phase g = Win \<and> contains exitButtonBounds mousePos then
        Some (Returned, g\<lparr>windowOpen := False\<rparr>)
      else if phase g = Placement then
        placeClick tokenATex tokenBTex winProducts g mousePos
      else if phase g = Movement then
        moveClick g mousePos
      else Some (Continue, g))"

datatype MouseButton = LeftButton | OtherButton

datatype Event = Closed | MouseButtonPressed MouseButton int int | OtherEvent

text \<open>One turn of the \<^verbatim>\<open>while (window.pollEvent(ev))\<close> loop.\<close>

definition handleEvent ::
  "Texture \<Rightarrow> Texture \<Rightarrow> int list \<Rightarrow> Event \<Rightarrow> Game \<Rightarrow> (flow \<times> Game) option" where
  "handleEvent tokenATex tokenBTex winProducts ev g =
     (let g1 = (if ev = Closed then g\<lparr>windowOpen := False\<rparr> else g) in
      case ev of
        MouseButtonPressed LeftButton x y \<Rightarrow>
          handleClick tokenATex tokenBTex winProducts g1 (real_of_int x, real_of_int y)
      | _ \<Rightarrow> Some (Continue, g1))"

text \<open>
  The loop over the pending events. It stops at a \<^verbatim>\<open>return\<close>, and \<^verbatim>\<open>pollEvent\<close> yields
  nothing once the window is closed; the events not polled stay in the queue and are
  returned with the state.
\<close>

fun handleEvents ::
  "Texture \<Rightarrow> Texture \<Rightarrow> int list \<Rightarrow> Event list \<Rightarrow> Game \<Rightarrow> (Event list \<times> Game) option" where
  "handleEvents tokenATex tokenBTex winProducts [] g = Some ([], g)"
| "handleEvents tokenATex tokenBTex winProducts (ev # evs) g =
     (if \<not> windowOpen g then Some (ev # evs, g)
      else (case handleEvent tokenATex tokenBTex winProducts ev g of
              None \<Rightarrow> None
            | Some (Returned, g') \<Rightarrow> Some (evs, g')
            | Some (Continue, g') \<Rightarrow> handleEvents tokenATex tokenBTex winProducts evs g'))"

subsection \<open>updateTokens\<close>

definition vlen :: "Vector2f \<Rightarrow> real" where
  "vlen d = sqrt (fst d * fst d + snd d * snd d)"

text \<open>The token on its arrival (source lines 354 to 357).\<close>

definition arrive :: "Token \<Rightarrow> Token" where
  "arrive t = t\<lparr>spritePos := targetPos t, slotIndex := nextSlotIndex t,
                 moving := False, nextSlotIndex := - 1\<rparr>"

text \<open>The loop body for the token at index \<open>i\<close> (source lines 350 to 372).\<close>

definition updateToken :: "real \<Rightarrow> real \<Rightarrow> int list \<Rightarrow> nat \<Rightarrow> Game \<Rightarrow> Game option" where
  "updateToken dt speed winProducts i g =
     (let t = tokens g ! i in
      if moving t then
        (let dir = vsub (targetPos t) (spritePos t);
             dist = vlen dir
         in if dist < speed * dt then
              (let t' = arrive t;
                   toks = (tokens g)[i := t']
               in (case checkWin toks (owner t') winProducts of
                     None \<Rightarrow> None
                   | Some won \<Rightarrow>
                       (let g1 = (if won
                                  then g\<lparr>tokens := toks, phase := Win,
                                         startButtonBounds := mkRect 165 510 275 100\<rparr>
                                  else g\<lparr>tokens := toks\<rparr>)
                        in Some (g1\<lparr>selectedTok := None, turn := other (turn g)\<rparr>))))
            else
              (let step = (fst dir / dist * speed * dt, snd dir / dist * speed * dt)
               in Some (g\<lparr>tokens := (tokens g)[i := t\<lparr>spritePos := vadd (spritePos t) step\<rparr>]\<rparr>)))
      else Some g)"

fun updateTokens_loop ::
  "real \<Rightarrow> real \<Rightarrow> int list \<Rightarrow> nat list \<Rightarrow> Game \<Rightarrow> Game option" where
  "updateTokens_loop dt speed winProducts [] g = Some g"
| "updateTokens_loop dt speed winProducts (i # is) g =
     (case updateToken dt speed winProducts i g of
        None \<Rightarrow> None
      | Some g' \<Rightarrow> updateTokens_loop dt speed winProducts is g')"

definition updateTokens :: "real \<Rightarrow> real \<Rightarrow> int list \<Rightarrow> Game \<Rightarrow> Game option" where
  "updateTokens dt speed winProducts g =
     updateTokens_loop dt speed winProducts [0..<length (tokens g)] g"

subsection \<open>The main loop\<close>

definition initialGame :: Game where
  "initialGame =
     \<lparr>tokens = [], turn = A, phase = Start, selectedTok = None, placedA = 0, placedB = 0,
      startButtonBounds = mkRect 165 440 275 100, windowOpen = True\<rparr>"

text \<open>
  One frame: the pending events, then the motion update with the frame's elapsed time and
  the fixed speed of 400. A run is given by what arrives in each frame: the new events and
  the elapsed time. The loop ends when the window is closed.
\<close>

fun mainLoop ::
  "Texture \<Rightarrow> Texture \<Rightarrow> (Event list \<times> real) list \<Rightarrow> Event list \<Rightarrow> Game \<Rightarrow> Game option" where
  "mainLoop tokenATex tokenBTex [] pending g = Some g"
| "mainLoop tokenATex tokenBTex ((evs, dt) # frames) pending g =
     (if \<not> windowOpen g then Some g
      else (case handleEvents tokenATex tokenBTex mainWinProducts (pending @ evs) g of
              None \<Rightarrow> None
            | Some (rest, g1) \<Rightarrow>
                (case updateTokens dt 400 mainWinProducts g1 of
                   None \<Rightarrow> None
                 | Some g2 \<Rightarrow> mainLoop tokenATex tokenBTex frames rest g2)))"

text \<open>
  The states of a game, one event or one motion update at a time. The update rule takes a
  positive elapsed time, as the frame-limited loop gives. Then the step of a token that
  has not arrived divides by a distance that is not zero; with no time elapsed nothing
  arrives and nothing moves, except that in floating point the step of a token sitting
  exactly on its target would not be a number.
\<close>

inductive reachable :: "Texture \<Rightarrow> Texture \<Rightarrow> Game \<Rightarrow> bool"
  for tokenATex tokenBTex :: Texture where
  reach_init: "reachable tokenATex tokenBTex initialGame"
| reach_event:
    "reachable tokenATex tokenBTex g \<Longrightarrow>
     handleEvent tokenATex tokenBTex mainWinProducts ev g = Some (f, g') \<Longrightarrow>
     reachable tokenATex tokenBTex g'"
| reach_update:
    "reachable tokenATex tokenBTex g \<Longrightarrow> 0 < dt \<Longrightarrow>
     updateTokens dt 400 mainWinProducts g = Some g' \<Longrightarrow>
     reachable tokenATex tokenBTex g'"

subsection \<open>Auxiliary notions and sample positions\<close>

text \<open>The prime of a slot, and the product of the primes of a player's placed tokens as
  an unbounded integer.\<close>

definition slotPrime :: "int \<Rightarrow> int" where
  "slotPrime i = prime (slots ! nat i)"

definition exactProduct :: "Token list \<Rightarrow> Player \<Rightarrow> int" where
  "exactProduct toks player = prod_list (map slotPrime (placedSlots toks player))"

text \<open>A token as a placement creates it, with token textures of 50 by 50 pixels.\<close>

definition tokenAt :: "Player \<Rightarrow> int \<Rightarrow> Token" where
  "tokenAt pl i = newToken (50, 50) pl i (slots ! nat i)"

text \<open>Player A on every slot of the board.\<close>

definition allNine :: "Token list" where
  "allNine = map (tokenAt A) slot_ids"

text \<open>Scenario 1 of the specification: A on 0, B on 1, A on 3, B on 4, A on 6.\<close>

definition scenario1 :: "Token list" where
  "scenario1 = [tokenAt A 0, tokenAt B 1, tokenAt A 3, tokenAt B 4, tokenAt A 6]"

subsection \<open>Notions used to state the rules\<close>

text \<open>
  A slot is free when no token sits on it and no token in transit is bound for it; it is
  under the mouse when its 50 by 50 area contains the position.
\<close>

definition slotFree :: "Token list \<Rightarrow> int \<Rightarrow> bool" where
  "slotFree toks i = (\<not> list_ex (\<lambda>t. slotIndex t = i) toks \<and>
                      \<not> list_ex (\<lambda>t. moving t \<and> nextSlotIndex t = i) toks)"

definition underMouse :: "Vector2f \<Rightarrow> int \<Rightarrow> bool" where
  "underMouse pos i =
     (case at_index slots i of None \<Rightarrow> False | Some s \<Rightarrow> contains (slotArea s) pos)"

text \<open>
  A move intent for slot \<open>S\<close> is accepted when a token is selected, that token is not
  already moving, \<open>S\<close> is free and under the click, and \<open>S\<close> is adjacent to the token's
  current slot. \<open>slideTo\<close> is the state in which the selected token has begun its slide.
\<close>

definition moveAccepted :: "Game \<Rightarrow> Vector2f \<Rightarrow> int \<Rightarrow> bool" where
  "moveAccepted g pos S =
     (case selectedTok g of
        None \<Rightarrow> False
      | Some j \<Rightarrow>
          \<not> moving (tokens g ! j) \<and> slotFree (tokens g) S \<and> underMouse pos S \<and>
          isAdjacent (slotIndex (tokens g ! j)) S = Some True)"

definition slideTo :: "Game \<Rightarrow> int \<Rightarrow> Game" where
  "slideTo g S =
     (case selectedTok g of
        None \<Rightarrow> g
      | Some j \<Rightarrow> g\<lparr>tokens := (tokens g)[j := beginMove (tokens g ! j) S (slots ! nat S)]\<rparr>)"

text \<open>
  The invariant of the game: slot indices are on the board, the selection points into the
  collection and is empty outside the Movement phase (so that no \<^verbatim>\<open>push_back\<close> ever
  happens under a live pointer), the start button has its in-game rectangle during
  Placement and Movement, and no slot is held or reserved by two tokens.
\<close>

definition tokenOK :: "Token \<Rightarrow> bool" where
  "tokenOK t = (slotIndex t \<in> set slot_ids \<and> (moving t \<longrightarrow> nextSlotIndex t \<in> set slot_ids))"

definition wellFormed :: "Game \<Rightarrow> bool" where
  "wellFormed g =
     ((\<forall>t\<in>set (tokens g). tokenOK t) \<and>
      (\<forall>j. selectedTok g = Some j \<longrightarrow> j < length (tokens g)) \<and>
      (phase g \<noteq> Movement \<longrightarrow> selectedTok g = None) \<and>
      (phase g = Placement \<or> phase g = Movement \<longrightarrow>
         startButtonBounds g = mkRect 340 620 240 80))"

definition onePerSlot :: "Token list \<Rightarrow> bool" where
  "onePerSlot toks = (\<forall>s. length (filter (\<lambda>t. occupies t s) toks) \<le> 1)"

definition gameInv :: "Game \<Rightarrow> bool" where
  "gameInv g = (wellFormed g \<and> onePerSlot (tokens g))"

subsection \<open>Sample runs\<close>

text \<open>
  A token in transit: as \<open>beginMove\<close> leaves it, and with the sprite somewhere on the way.
\<close>

definition inTransit :: "Token \<Rightarrow> int \<Rightarrow> Token" where
  "inTransit t target = beginMove t target (slots ! nat target)"

definition inFlight :: "Token \<Rightarrow> int \<Rightarrow> Vector2f \<Rightarrow> Token" where
  "inFlight t target pos = (inTransit t target)\<lparr>spritePos := pos\<rparr>"

text \<open>Player A on slots 0 and 1, and a third token of A sliding from slot 2 to slot 5.\<close>

definition transitExample :: "Token list" where
  "transitExample = [tokenAt A 0, tokenAt A 1, inTransit (tokenAt A 2) 5]"

text \<open>A frame of a sixtieth of a second in which one left click arrives.\<close>

definition click :: "int \<Rightarrow> int \<Rightarrow> Event list \<times> real" where
  "click x y = ([MouseButtonPressed LeftButton x y], 1 / 60)"

text \<open>A frame of the same length in which nothing arrives.\<close>

definition idle :: "Event list \<times> real" where
  "idle = ([], 1 / 60)"

text \<open>
  The start button, then A on 0, B on 3, A on 1, B on 7, A on 5, B on 8: no line, and the
  Movement phase begins with A to move.
\<close>

definition openingFrames :: "(Event list \<times> real) list" where
  "openingFrames = [click 300 490, click 50 50, click 50 300, click 300 50, click 300 550,
     click 550 300, click 550 550]"

definition movementStart :: Game where
  "movementStart =
     \<lparr>tokens = [tokenAt A 0, tokenAt B 3, tokenAt A 1, tokenAt B 7, tokenAt A 5, tokenAt B 8],
      turn = A, phase = Movement, selectedTok = None, placedA = 3, placedB = 3,
      startButtonBounds = mkRect 340 620 240 80, windowOpen = True\<rparr>"

text \<open>After the start button and A's first placement on slot 0.\<close>

definition placementState :: Game where
  "placementState =
     \<lparr>tokens = [tokenAt A 0],
      turn = B, phase = Placement, selectedTok = None, placedA = 1, placedB = 0,
      startButtonBounds = mkRect 340 620 240 80, windowOpen = True\<rparr>"

text \<open>Scenario 1 played through the main loop: A completes the column 0, 3, 6.\<close>

definition scenario1Frames :: "(Event list \<times> real) list" where
  "scenario1Frames = [click 300 490, click 50 50, click 300 50, click 50 300, click 300 300,
     click 50 550]"

definition scenario1Win :: Game where
  "scenario1Win =
     \<lparr>tokens = scenario1,
      turn = A, phase = Win, selectedTok = None, placedA = 2, placedB = 2,
      startButtonBounds = mkRect 165 510 275 100, windowOpen = True\<rparr>"

text \<open>After the opening, A has clicked the token on slot 5.\<close>

definition selectedState :: Game where
  "selectedState =
     \<lparr>tokens = [tokenAt A 0, tokenAt B 3, tokenAt A 1, tokenAt B 7,
                (tokenAt A 5)\<lparr>selected := True\<rparr>, tokenAt B 8],
      turn = A, phase = Movement, selectedTok = Some 4, placedA = 3, placedB = 3,
      startButtonBounds = mkRect 340 620 240 80, windowOpen = True\<rparr>"

text \<open>
  After the opening A clicks the token on slot 5 and then slot 2, which starts a slide
  that will complete the row 0, 1, 2. At 400 pixels a second the 250 pixels take 38
  frames: after the frame of the click and 36 more the token is still on its way, and it
  arrives in the next.
\<close>

definition winningMoveFrames :: "(Event list \<times> real) list" where
  "winningMoveFrames = openingFrames @ [click 550 300, click 550 50] @ replicate 36 idle"

text \<open>
  The same two clicks, then, a sixth of a second later each, a click on A's token on
  slot 1 and a click on slot 4. The first token has covered 140 of its 250 pixels when
  the second one starts.
\<close>

definition doubleMoveFrames :: "(Event list \<times> real) list" where
  "doubleMoveFrames =
     openingFrames @ [click 550 300, click 550 50] @ replicate 9 idle @ [click 300 50]
       @ replicate 9 idle @ [click 300 300]"

definition doubleMoveState :: Game where
  "doubleMoveState =
     \<lparr>tokens = [tokenAt A 0, tokenAt B 3, inFlight (tokenAt A 1) 4 (275, 95 / 3),
                tokenAt B 7, inFlight (tokenAt A 5) 2 (525, 135), tokenAt B 8],
      turn = A, phase = Movement, selectedTok = Some 2, placedA = 3, placedB = 3,
      startButtonBounds = mkRect 340 620 240 80, windowOpen = True\<rparr>"

text \<open>
  The double move continued without any further event: 17 frames later the first token
  arrives on slot 2, and 20 frames after that the second one arrives on slot 4.
\<close>

definition lateArrivalFrames :: "(Event list \<times> real) list" where
  "lateArrivalFrames = doubleMoveFrames @ replicate 17 idle"

text \<open>
  A state for the click handler alone: phase Placement, B to place, and the only token,
  A's from slot 0, in transit to slot 1. Slot 1 bears no token and is reserved.
\<close>

definition reservedState :: Game where
  "reservedState =
     \<lparr>tokens = [inTransit (tokenAt A 0) 1],
      turn = B, phase = Placement, selectedTok = None, placedA = 1, placedB = 0,
      startButtonBounds = mkRect 340 620 240 80, windowOpen = True\<rparr>"

section \<open>Properties\<close>

lemma slot_idsI: "0 \<le> a \<Longrightarrow> a < 9 \<Longrightarrow> a \<in> set slot_ids"
  unfolding slot_ids_def by (simp, presburger)

lemma slot_idsD: "a \<in> set slot_ids \<Longrightarrow> 0 \<le> a \<and> a < 9"
  unfolding slot_ids_def by auto

lemma isAdjacent_eval:
  "isAdjacent 0 b = Some (b = 1 \<or> b = 3 \<or> b = 4)"
  "isAdjacent 1 b = Some (b = 0 \<or> b = 2 \<or> b = 4)"
  "isAdjacent 2 b = Some (b = 1 \<or> b = 5 \<or> b = 4)"
  "isAdjacent 3 b = Some (b = 0 \<or> b = 4 \<or> b = 6)"
  "isAdjacent 4 b = Some (b = 0 \<or> b = 1 \<or> b = 2 \<or> b = 3 \<or> b = 5 \<or> b = 6 \<or> b = 7 \<or> b = 8)"
  "isAdjacent 5 b = Some (b = 2 \<or> b = 4 \<or> b = 8)"
  "isAdjacent 6 b = Some (b = 3 \<or> b = 4 \<or> b = 7)"
  "isAdjacent 7 b = Some (b = 6 \<or> b = 4 \<or> b = 8)"
  "isAdjacent 8 b = Some (b = 4 \<or> b = 5 \<or> b = 7)"
  by (auto simp: isAdjacent_def at_index_def adjacent_def)

subsection \<open>The adjacency table\<close>

lemma slot_cases:
  "a \<in> set slot_ids \<Longrightarrow>
   a = 0 \<or> a = 1 \<or> a = 2 \<or> a = 3 \<or> a = 4 \<or> a = 5 \<or> a = 6 \<or> a = 7 \<or> a = 8"
  by (simp add: slot_ids_def)

lemma isAdjacent_sym:
  assumes "a \<in> set slot_ids" "b \<in> set slot_ids"
  shows "isAdjacent a b = isAdjacent b a"
  using slot_cases [OF assms(1)] slot_cases [OF assms(2)]
  by (elim disjE; simp add: isAdjacent_eval)

lemma isAdjacent_centre:
  assumes "b \<in> set slot_ids" "b \<noteq> 4"
  shows "isAdjacent 4 b = Some True"
  using slot_cases [OF assms(1)] assms(2)
  by (elim disjE; simp add: isAdjacent_eval)

lemma isAdjacent_rim:
  assumes "a \<in> set slot_ids" "b \<in> set slot_ids" "a \<noteq> 4"
  shows "isAdjacent a b = Some (b = 4 \<or> line_neighbour a b)"
  using slot_cases [OF assms(1)] slot_cases [OF assms(2)] assms(3)
  by (elim disjE; simp add: isAdjacent_eval line_neighbour_def)

lemma isAdjacent_rim_count:
  assumes "a \<in> set slot_ids" "a \<noteq> 4"
  shows "length (filter (\<lambda>b. isAdjacent a b = Some True) slot_ids) = 3"
  using slot_cases [OF assms(1)] assms(2)
  by (elim disjE; simp add: isAdjacent_eval slot_ids_def)

lemma line_neighbour_count:
  assumes "a \<in> set slot_ids" "a \<noteq> 4"
  shows "length (filter (\<lambda>b. b \<noteq> 4 \<and> line_neighbour a b) slot_ids) = 2"
  using slot_cases [OF assms(1)] assms(2)
  by (elim disjE; simp add: line_neighbour_def slot_ids_def)

text \<open>
  Claim C7. On the slots 0 to 8, \<open>isAdjacent\<close> is symmetric; the centre slot 4 is adjacent
  to each of the eight other slots; and every slot \<open>a\<close> other than the centre is adjacent to
  exactly three slots, which are the centre and the two line-neighbours of \<open>a\<close> other than
  the centre.
\<close>

theorem isAdjacent_table:
  "(\<forall>a\<in>set slot_ids. \<forall>b\<in>set slot_ids. isAdjacent a b = isAdjacent b a) \<and>
   (\<forall>b\<in>set slot_ids. b \<noteq> 4 \<longrightarrow> isAdjacent 4 b = Some True) \<and>
   (\<forall>a\<in>set slot_ids. a \<noteq> 4 \<longrightarrow>
      (\<forall>b\<in>set slot_ids. isAdjacent a b = Some (b = 4 \<or> line_neighbour a b)) \<and>
      length (filter (\<lambda>b. isAdjacent a b = Some True) slot_ids) = 3 \<and>
      length (filter (\<lambda>b. b \<noteq> 4 \<and> line_neighbour a b) slot_ids) = 2)"
  using isAdjacent_sym isAdjacent_centre isAdjacent_rim isAdjacent_rim_count
    line_neighbour_count by blast

theorem isAdjacent_table_witness:
  "(0::int) \<in> set slot_ids \<and> (1::int) \<in> set slot_ids \<and> (0::int) \<noteq> 4 \<and>
   isAdjacent 0 1 = isAdjacent 1 0 \<and> isAdjacent 4 1 = Some True \<and>
   isAdjacent 0 1 = Some (1 = (4::int) \<or> line_neighbour 0 1) \<and>
   length (filter (\<lambda>b. isAdjacent 0 b = Some True) slot_ids) = 3 \<and>
   length (filter (\<lambda>b. b \<noteq> 4 \<and> line_neighbour 0 b) slot_ids) = 2"
proof -
  have m: "(0::int) \<in> set slot_ids" "(1::int) \<in> set slot_ids" "(0::int) \<noteq> 4" "(1::int) \<noteq> 4"
    by (simp_all add: slot_ids_def)
  from isAdjacent_table m show ?thesis by blast
qed

subsection \<open>Reset\<close>

text \<open>
  Claim C10. Whatever the state, after \<open>resetGame\<close> the token collection is empty, both
  placement counts are zero, it is player A's turn and no token is selected; the phase is
  Start when the reset was made in phase Win, and Placement otherwise.
\<close>

theorem resetGame_result:
  "tokens (resetGame g) = [] \<and> placedA (resetGame g) = 0 \<and> placedB (resetGame g) = 0 \<and>
   turn (resetGame g) = A \<and> selectedTok (resetGame g) = None \<and>
   phase (resetGame g) = (if phase g = Win then Start else Placement)"
  by (simp add: resetGame_def)

subsection \<open>The win detector\<close>

lemma computeWinProducts_main:
  "computeWinProducts winCombos slots = Some [897, 935, 3857, 6409, 231, 2185, 2717, 7337]"
  by (simp add: winCombos_def slots_def at_index_def mul32_def wrap32_def)

lemma slotPrime_eval:
  "slotPrime 0 = 13" "slotPrime 1 = 3" "slotPrime 2 = 23" "slotPrime 3 = 17" "slotPrime 4 = 11"
  "slotPrime 5 = 5" "slotPrime 6 = 29" "slotPrime 7 = 7" "slotPrime 8 = 19"
  by (simp_all add: slotPrime_def slots_def)

lemma prime_pairs:
  "coprime (13::int) 3" "coprime (13::int) 23" "coprime (13::int) 17"
  "coprime (13::int) 11" "coprime (13::int) 5" "coprime (13::int) 29"
  "coprime (13::int) 7" "coprime (13::int) 19" "coprime (3::int) 23"
  "coprime (3::int) 17" "coprime (3::int) 11" "coprime (3::int) 5"
  "coprime (3::int) 29" "coprime (3::int) 7" "coprime (3::int) 19"
  "coprime (23::int) 17" "coprime (23::int) 11" "coprime (23::int) 5"
  "coprime (23::int) 29" "coprime (23::int) 7" "coprime (23::int) 19"
  "coprime (17::int) 11" "coprime (17::int) 5" "coprime (17::int) 29"
  "coprime (17::int) 7" "coprime (17::int) 19" "coprime (11::int) 5"
  "coprime (11::int) 29" "coprime (11::int) 7" "coprime (11::int) 19"
  "coprime (5::int) 29" "coprime (5::int) 7" "coprime (5::int) 19"
  "coprime (29::int) 7" "coprime (29::int) 19" "coprime (7::int) 19"
  by code_simp+

lemmas prime_pairs_sym = prime_pairs [THEN coprime_commute [THEN iffD1]]

lemma slotPrime_coprime:
  assumes "a \<in> set slot_ids" "b \<in> set slot_ids" "a \<noteq> b"
  shows "coprime (slotPrime a) (slotPrime b)"
  using slot_cases [OF assms(1)] slot_cases [OF assms(2)] assms(3)
  by (elim disjE; simp add: slotPrime_eval prime_pairs prime_pairs_sym)

lemma slotPrime_ge3:
  assumes "a \<in> set slot_ids"
  shows "3 \<le> slotPrime a"
  using slot_cases [OF assms] by (elim disjE; simp add: slotPrime_eval)

lemma at_index_slots:
  assumes "a \<in> set slot_ids"
  shows "\<exists>s. at_index slots a = Some s \<and> prime s = slotPrime a"
  using slot_idsD [OF assms] by (simp add: at_index_def slotPrime_def slots_def)

lemma wrap32_id: "- 2147483648 \<le> x \<Longrightarrow> x < 2147483648 \<Longrightarrow> wrap32 x = x"
  by (simp add: wrap32_def)

lemma prod_slotPrime_ge1:
  "set is \<subseteq> set slot_ids \<Longrightarrow> 1 \<le> prod_list (map slotPrime is)"
proof (induction "is")
  case Nil
  then show ?case by simp
next
  case (Cons i "is")
  then have "3 \<le> slotPrime i" and "1 \<le> prod_list (map slotPrime is)"
    by (simp_all add: slotPrime_ge3)
  then have "1 * 1 \<le> slotPrime i * prod_list (map slotPrime is)"
    by (intro mult_mono) simp_all
  then show ?case by simp
qed

text \<open>Without overflow the first loop computes the product of the primes.\<close>

lemma checkWin_product_exact:
  assumes "set (placedSlots toks pl) \<subseteq> set slot_ids" "1 \<le> acc"
    and "acc * exactProduct toks pl < 2147483648"
  shows "checkWin_product toks pl acc = Some (acc * exactProduct toks pl)"
  using assms
proof (induction toks arbitrary: acc)
  case Nil
  then show ?case by (simp add: exactProduct_def placedSlots_def)
next
  case (Cons t toks)
  show ?case
  proof (cases "owner t = pl \<and> slotIndex t \<noteq> - 1")
    case False
    then have eq: "placedSlots (t # toks) pl = placedSlots toks pl"
      by (auto simp: placedSlots_def)
    with Cons.prems have "checkWin_product toks pl acc = Some (acc * exactProduct toks pl)"
      by (intro Cons.IH) (simp_all add: exactProduct_def)
    with False eq show ?thesis by (auto simp: exactProduct_def)
  next
    case True
    then have eq: "placedSlots (t # toks) pl = slotIndex t # placedSlots toks pl"
      by (simp add: placedSlots_def)
    with Cons.prems have mem: "slotIndex t \<in> set slot_ids"
      and sub: "set (placedSlots toks pl) \<subseteq> set slot_ids" by simp_all
    from at_index_slots [OF mem] obtain s where
      s: "at_index slots (slotIndex t) = Some s" "prime s = slotPrime (slotIndex t)" by blast
    have p3: "3 \<le> slotPrime (slotIndex t)" by (rule slotPrime_ge3 [OF mem])
    have r1: "1 \<le> exactProduct toks pl"
      unfolding exactProduct_def by (rule prod_slotPrime_ge1 [OF sub])
    have ex: "exactProduct (t # toks) pl = slotPrime (slotIndex t) * exactProduct toks pl"
      by (simp add: exactProduct_def eq)
    let ?a = "acc * slotPrime (slotIndex t)"
    have a1: "1 \<le> ?a" using Cons.prems(2) p3
    proof -
      have "1 * 1 \<le> acc * slotPrime (slotIndex t)"
        using Cons.prems(2) p3 by (intro mult_mono) simp_all
      then show ?thesis by simp
    qed
    have "?a * 1 \<le> ?a * exactProduct toks pl"
      using a1 r1 by (intro mult_left_mono) simp_all
    also have "\<dots> = acc * exactProduct (t # toks) pl" by (simp add: ex)
    finally have abound: "?a < 2147483648" using Cons.prems(3) by simp
    have w: "mul32 acc (prime s) = ?a"
      using a1 abound by (simp add: mul32_def s wrap32_id)
    have "checkWin_product toks pl ?a = Some (?a * exactProduct toks pl)"
      using sub a1 Cons.prems(3) by (intro Cons.IH) (simp_all add: ex mult.assoc)
    then show ?thesis using True s w by (simp add: ex mult.assoc)
  qed
qed

text \<open>A slot's prime divides the product exactly when the slot is among the factors.\<close>

lemma slotPrime_dvd_prod:
  assumes "set is \<subseteq> set slot_ids" "a \<in> set slot_ids"
  shows "slotPrime a dvd prod_list (map slotPrime is) \<longleftrightarrow> a \<in> set is"
  using assms(1)
proof (induction "is")
  case Nil
  have "\<not> slotPrime a dvd 1"
    using slotPrime_ge3 [OF assms(2)] by (auto dest: zdvd_imp_le)
  then show ?case by simp
next
  case (Cons i "is")
  show ?case
  proof (cases "i = a")
    case True
    then show ?thesis by simp
  next
    case False
    with Cons.prems assms(2) have "coprime (slotPrime a) (slotPrime i)"
      by (intro slotPrime_coprime) auto
    then have "slotPrime a dvd slotPrime i * prod_list (map slotPrime is)
        \<longleftrightarrow> slotPrime a dvd prod_list (map slotPrime is)"
      by (rule coprime_dvd_mult_right_iff)
    with Cons False show ?thesis by auto
  qed
qed

lemma triple_dvd:
  assumes "a \<in> set slot_ids" "b \<in> set slot_ids" "c \<in> set slot_ids"
    and "a \<noteq> b" "a \<noteq> c" "b \<noteq> c"
  shows "slotPrime a * slotPrime b * slotPrime c dvd n
     \<longleftrightarrow> slotPrime a dvd n \<and> slotPrime b dvd n \<and> slotPrime c dvd n"
proof
  assume l: "slotPrime a * slotPrime b * slotPrime c dvd n"
  then show "slotPrime a dvd n \<and> slotPrime b dvd n \<and> slotPrime c dvd n"
    by (meson dvd_mult_left dvd_mult_right)
next
  assume r: "slotPrime a dvd n \<and> slotPrime b dvd n \<and> slotPrime c dvd n"
  have ab: "coprime (slotPrime a) (slotPrime b)" using assms by (intro slotPrime_coprime)
  have ac: "coprime (slotPrime a) (slotPrime c)" using assms by (intro slotPrime_coprime)
  have bc: "coprime (slotPrime b) (slotPrime c)" using assms by (intro slotPrime_coprime)
  have "slotPrime a * slotPrime b dvd n" using ab r by (simp add: divides_mult)
  moreover have "coprime (slotPrime a * slotPrime b) (slotPrime c)"
    using ac bc by simp
  ultimately show "slotPrime a * slotPrime b * slotPrime c dvd n"
    using r by (simp add: divides_mult)
qed


lemma rem32_dvd: "0 < a \<Longrightarrow> 0 < p \<Longrightarrow> rem32 a p = 0 \<longleftrightarrow> p dvd a"
  by (simp add: rem32_def dvd_eq_mod_eq_0)

lemma checkWin_scan_pos:
  assumes "1 \<le> product" "\<forall>p\<in>set ps. 0 < p"
  shows "checkWin_scan product ps = Some (list_ex (\<lambda>p. p dvd product) ps)"
  using assms(2)
proof (induction ps)
  case Nil
  then show ?case by simp
next
  case (Cons p ps)
  then have "0 < p" by simp
  with assms(1) have "rem32 product p = 0 \<longleftrightarrow> p dvd product"
    by (intro rem32_dvd) simp_all
  with Cons \<open>0 < p\<close> assms(1) show ?case by auto
qed

lemma mainWinProducts_eval:
  "mainWinProducts = [897, 935, 3857, 6409, 231, 2185, 2717, 7337]"
  by (simp add: mainWinProducts_def computeWinProducts_main)

lemma mainWinProducts_lines:
  "mainWinProducts = map (\<lambda>(a, b, c). slotPrime a * slotPrime b * slotPrime c) winCombos"
  by (simp add: mainWinProducts_eval winCombos_def slotPrime_eval)

lemma winCombos_wf:
  assumes "(a, b, c) \<in> set winCombos"
  shows "a \<in> set slot_ids \<and> b \<in> set slot_ids \<and> c \<in> set slot_ids \<and>
         a \<noteq> b \<and> a \<noteq> c \<and> b \<noteq> c"
  using assms by (auto simp: winCombos_def slot_ids_def)

lemma occupiedBy_placedSlots: "occupiedBy toks pl = set (placedSlots toks pl)"
  by (auto simp: occupiedBy_def placedSlots_def)

lemma line_dvd_iff:
  assumes "set is \<subseteq> set slot_ids" "(a, b, c) \<in> set winCombos"
  shows "slotPrime a * slotPrime b * slotPrime c dvd prod_list (map slotPrime is)
     \<longleftrightarrow> a \<in> set is \<and> b \<in> set is \<and> c \<in> set is"
proof -
  note w = winCombos_wf [OF assms(2)]
  have "slotPrime a * slotPrime b * slotPrime c dvd prod_list (map slotPrime is)
     \<longleftrightarrow> slotPrime a dvd prod_list (map slotPrime is) \<and>
         slotPrime b dvd prod_list (map slotPrime is) \<and>
         slotPrime c dvd prod_list (map slotPrime is)"
    using w by (intro triple_dvd) simp_all
  then show ?thesis
    using w by (simp add: slotPrime_dvd_prod [OF assms(1)])
qed

lemma some_line_dvd_iff:
  assumes "set is \<subseteq> set slot_ids"
  shows "list_ex (\<lambda>p. p dvd prod_list (map slotPrime is)) mainWinProducts
     \<longleftrightarrow> hasLine (set is)"
proof -
  have "list_ex (\<lambda>p. p dvd prod_list (map slotPrime is)) mainWinProducts
     \<longleftrightarrow> (\<exists>x\<in>set winCombos.
            (case x of (a, b, c) \<Rightarrow> slotPrime a * slotPrime b * slotPrime c)
              dvd prod_list (map slotPrime is))"
    by (simp add: mainWinProducts_lines list_ex_iff)
  also have "\<dots> \<longleftrightarrow> (\<exists>x\<in>set winCombos.
            (case x of (a, b, c) \<Rightarrow> a \<in> set is \<and> b \<in> set is \<and> c \<in> set is))"
    using line_dvd_iff [OF assms] by (intro bex_cong refl) auto
  finally show ?thesis by (simp add: hasLine_def list_ex_iff)
qed

text \<open>
  The prime-product test agrees with the set reading whenever the product of the player's
  primes fits a 32-bit \<^verbatim>\<open>int\<close>.
\<close>

lemma checkWin_exact:
  assumes "set (placedSlots toks pl) \<subseteq> set slot_ids"
    and "exactProduct toks pl < 2147483648"
  shows "checkWin toks pl mainWinProducts = Some (hasLine (occupiedBy toks pl))"
proof -
  have p: "checkWin_product toks pl 1 = Some (exactProduct toks pl)"
    using checkWin_product_exact [OF assms(1), of 1] assms(2) by simp
  have ge: "1 \<le> exactProduct toks pl"
    unfolding exactProduct_def by (rule prod_slotPrime_ge1 [OF assms(1)])
  have pos: "\<forall>p\<in>set mainWinProducts. 0 < p"
    by (simp add: mainWinProducts_eval)
  have "checkWin toks pl mainWinProducts =
        Some (list_ex (\<lambda>p. p dvd exactProduct toks pl) mainWinProducts)"
    by (simp add: checkWin_def p checkWin_scan_pos [OF ge pos])
  then show ?thesis
    using some_line_dvd_iff [OF assms(1)]
    by (simp add: exactProduct_def occupiedBy_placedSlots)
qed

lemma prod_all_slots: "prod slotPrime (set slot_ids) = 3234846615"
proof -
  have "distinct slot_ids" by (simp add: slot_ids_def)
  then have "prod slotPrime (set slot_ids) = prod_list (map slotPrime slot_ids)"
    by (rule prod.distinct_set_conv_list)
  then show ?thesis by (simp add: slot_ids_def slotPrime_eval)
qed

lemma prod_slotPrime_set_ge1:
  assumes "S \<subseteq> set slot_ids"
  shows "1 \<le> prod slotPrime S"
proof (rule prod_ge_1)
  fix x assume "x \<in> S"
  with assms have "3 \<le> slotPrime x" by (intro slotPrime_ge3) auto
  then show "1 \<le> slotPrime x" by simp
qed

text \<open>Distinct slots that leave one slot out give a product below \<open>2^31\<close>.\<close>

lemma exactProduct_bound:
  assumes sub: "set is \<subseteq> set slot_ids" and d: "distinct is"
    and miss: "s \<in> set slot_ids" "s \<notin> set is"
  shows "prod_list (map slotPrime is) < 2147483648"
proof -
  let ?S = "set is"
  let ?D = "set slot_ids - ?S"
  have pl: "prod_list (map slotPrime is) = prod slotPrime ?S"
    using d by (simp add: prod.distinct_set_conv_list)
  have split: "prod slotPrime (set slot_ids) = prod slotPrime ?D * prod slotPrime ?S"
    using sub by (intro prod.subset_diff) simp_all
  have sD: "s \<in> ?D" using miss by simp
  have "prod slotPrime ?D = slotPrime s * prod slotPrime (?D - {s})"
    using sD by (intro prod.remove) simp_all
  moreover have "3 \<le> slotPrime s" by (rule slotPrime_ge3 [OF miss(1)])
  moreover have "1 \<le> prod slotPrime (?D - {s})"
    by (rule prod_slotPrime_set_ge1) auto
  ultimately have D3: "3 \<le> prod slotPrime ?D"
    using mult_mono [of 3 "slotPrime s" 1 "prod slotPrime (?D - {s})"] by simp
  have S1: "1 \<le> prod slotPrime ?S" by (rule prod_slotPrime_set_ge1 [OF sub])
  have "3 * prod slotPrime ?S \<le> prod slotPrime ?D * prod slotPrime ?S"
    using D3 S1 by (intro mult_right_mono) simp_all
  then have "3 * prod slotPrime ?S \<le> 3234846615"
    using split prod_all_slots by simp
  then show ?thesis using pl by simp
qed

text \<open>
  Claim C1, as amended. Let \<open>winProducts\<close> be the list \<open>computeWinProducts\<close> yields for
  the fixed combinations and slot primes. For every token collection in which the player's
  placed tokens sit on valid slots, no two of them on the same slot, and not on all nine
  slots, \<open>checkWin\<close> returns true if and only if the set of slots the player occupies
  contains one of the eight winning triples. (Lemma \<open>checkWin_exact\<close> gives the same
  whenever the product of the player's primes is below \<open>2^31\<close>.)
\<close>

theorem checkWin_iff_line:
  assumes "computeWinProducts winCombos slots = Some winProducts"
    and "\<forall>t\<in>set toks. owner t = player \<longrightarrow> slotIndex t = - 1 \<or> slotIndex t \<in> set slot_ids"
    and "distinct (placedSlots toks player)"
    and "\<exists>s\<in>set slot_ids. s \<notin> occupiedBy toks player"
  shows "checkWin toks player winProducts = Some (hasLine (occupiedBy toks player))"
proof -
  have wp: "winProducts = mainWinProducts"
    using assms(1) by (simp add: mainWinProducts_def)
  have sub: "set (placedSlots toks player) \<subseteq> set slot_ids"
    using assms(2) by (auto simp: placedSlots_def)
  from assms(4) obtain s where s: "s \<in> set slot_ids" "s \<notin> set (placedSlots toks player)"
    by (auto simp: occupiedBy_placedSlots)
  have "exactProduct toks player < 2147483648"
    unfolding exactProduct_def by (rule exactProduct_bound [OF sub assms(3) s])
  then show ?thesis unfolding wp by (rule checkWin_exact [OF sub])
qed


lemma tokenAt_simps:
  "slotIndex (tokenAt pl i) = i" "owner (tokenAt pl i) = pl"
  "moving (tokenAt pl i) = False" "nextSlotIndex (tokenAt pl i) = - 1"
  by (simp_all add: tokenAt_def newToken_def)

lemma at_index_slots_eval:
  "at_index slots 0 = Some \<lparr>position = (50, 50), prime = 13\<rparr>"
  "at_index slots 1 = Some \<lparr>position = (300, 50), prime = 3\<rparr>"
  "at_index slots 2 = Some \<lparr>position = (550, 50), prime = 23\<rparr>"
  "at_index slots 3 = Some \<lparr>position = (50, 300), prime = 17\<rparr>"
  "at_index slots 4 = Some \<lparr>position = (300, 300), prime = 11\<rparr>"
  "at_index slots 5 = Some \<lparr>position = (550, 300), prime = 5\<rparr>"
  "at_index slots 6 = Some \<lparr>position = (50, 550), prime = 29\<rparr>"
  "at_index slots 7 = Some \<lparr>position = (300, 550), prime = 7\<rparr>"
  "at_index slots 8 = Some \<lparr>position = (550, 550), prime = 19\<rparr>"
  by (simp_all add: at_index_def slots_def)

lemma allNine_product: "checkWin_product allNine A 1 = Some (- 1060120681)"
  by (simp add: allNine_def slot_ids_def tokenAt_simps at_index_slots_eval
      mul32_def wrap32_def)

text \<open>
  With player A on all nine slots the product is 3234846615, beyond the range of a 32-bit
  \<^verbatim>\<open>int\<close>: the wrapped value is -1060120681, which none of the eight line products
  divides, so \<open>checkWin\<close> answers false although every line is covered.
\<close>

theorem checkWin_all_nine_counterexample:
  "computeWinProducts winCombos slots = Some mainWinProducts \<and>
   occupiedBy allNine A = set slot_ids \<and>
   hasLine (occupiedBy allNine A) \<and>
   checkWin allNine A mainWinProducts = Some False"
proof -
  have o: "occupiedBy allNine A = set slot_ids"
    by (simp add: occupiedBy_placedSlots placedSlots_def allNine_def slot_ids_def tokenAt_simps)
  have h: "hasLine (set slot_ids)"
    by (simp add: hasLine_def winCombos_def slot_ids_def)
  have c: "checkWin allNine A mainWinProducts = Some False"
    by (simp add: checkWin_def allNine_product mainWinProducts_eval rem32_def)
  show ?thesis
    using o h c by (simp add: mainWinProducts_eval computeWinProducts_main)
qed

theorem checkWin_iff_line_witness:
  "computeWinProducts winCombos slots = Some mainWinProducts \<and>
   hasLine (occupiedBy scenario1 A) \<and>
   checkWin scenario1 A mainWinProducts = Some True \<and>
   checkWin scenario1 B mainWinProducts = Some False"
proof -
  have m: "computeWinProducts winCombos slots = Some mainWinProducts"
    by (simp add: mainWinProducts_eval computeWinProducts_main)
  have oA: "occupiedBy scenario1 A = {0, 3, 6}" and oB: "occupiedBy scenario1 B = {1, 4}"
    by (simp_all add: occupiedBy_placedSlots placedSlots_def scenario1_def tokenAt_simps)
  have v: "\<forall>t\<in>set scenario1. owner t = pl \<longrightarrow> slotIndex t = - 1 \<or> slotIndex t \<in> set slot_ids"
    for pl by (simp add: scenario1_def tokenAt_simps slot_ids_def)
  have d: "distinct (placedSlots scenario1 pl)" for pl
    by (cases pl) (simp_all add: placedSlots_def scenario1_def tokenAt_simps)
  have f: "\<exists>s\<in>set slot_ids. s \<notin> occupiedBy scenario1 pl" for pl
    by (cases pl) (simp_all add: oA oB slot_ids_def)
  have hA: "hasLine (occupiedBy scenario1 A)" and hB: "\<not> hasLine (occupiedBy scenario1 B)"
    by (simp_all add: oA oB hasLine_def winCombos_def)
  from checkWin_iff_line [OF m v d f, of A] checkWin_iff_line [OF m v d f, of B] m hA hB
  show ?thesis by simp
qed

subsection \<open>Tokens in transit and the win test\<close>

lemma checkWin_product_cong:
  assumes "map owner toks = map owner toks'" "map slotIndex toks = map slotIndex toks'"
  shows "checkWin_product toks pl acc = checkWin_product toks' pl acc"
  using assms
proof (induction toks arbitrary: toks' acc)
  case Nil
  then show ?case by simp
next
  case (Cons t toks)
  then obtain u us where u: "toks' = u # us" by (cases toks') auto
  with Cons.prems have e: "owner t = owner u" "slotIndex t = slotIndex u"
    "map owner toks = map owner us" "map slotIndex toks = map slotIndex us" by simp_all
  have "checkWin_product toks pl a = checkWin_product us pl a" for a
    by (rule Cons.IH [OF e(3,4)])
  then show ?case unfolding u by (simp add: e(1,2) split: option.splits)
qed

text \<open>
  Claim C3, as amended. \<open>checkWin\<close> reads neither the moving flag nor the pending
  destination of a token: the answer is the one for the same tokens at rest on their
  \<open>slotIndex\<close>. A token in transit keeps its origin as \<open>slotIndex\<close> until it arrives, so
  it counts for its origin slot and not for its destination slot.
\<close>

theorem checkWin_ignores_transit:
  "checkWin (map (\<lambda>t. t\<lparr>moving := False, nextSlotIndex := - 1\<rparr>) toks) player winProducts
     = checkWin toks player winProducts"
proof -
  have "checkWin_product (map (\<lambda>t. t\<lparr>moving := False, nextSlotIndex := - 1\<rparr>) toks) player 1
      = checkWin_product toks player 1"
    by (rule checkWin_product_cong) (simp_all add: comp_def)
  then show ?thesis by (simp add: checkWin_def)
qed

lemma inTransit_simps:
  "slotIndex (inTransit t target) = slotIndex t" "owner (inTransit t target) = owner t"
  "moving (inTransit t target) = True" "nextSlotIndex (inTransit t target) = target"
  by (simp_all add: inTransit_def beginMove_def)

text \<open>
  With A on slots 0 and 1 and a third token of A in transit from slot 2 to slot 5,
  \<open>checkWin\<close> reports the row 0, 1, 2 as won; leaving the token in transit out, it would
  not.
\<close>

theorem checkWin_counts_origin_counterexample:
  "moving (transitExample ! 2) \<and> slotIndex (transitExample ! 2) = 2 \<and>
   nextSlotIndex (transitExample ! 2) = 5 \<and>
   checkWin_product transitExample A 1 = Some (13 * 3 * 23) \<and>
   checkWin_product (filter (\<lambda>t. \<not> moving t) transitExample) A 1 = Some (13 * 3) \<and>
   checkWin transitExample A mainWinProducts = Some True \<and>
   checkWin (filter (\<lambda>t. \<not> moving t) transitExample) A mainWinProducts = Some False"
  by (simp add: transitExample_def inTransit_simps tokenAt_simps checkWin_def
      at_index_slots_eval mul32_def wrap32_def mainWinProducts_eval rem32_def)

subsection \<open>The free slot under the mouse\<close>

lemma getFreeSlot_unfold:
  "getFreeSlotUnderMouse (x, y) toks =
     (if \<not> list_ex (\<lambda>t. occupies t 0) toks \<and> 25 \<le> x \<and> x < 75 \<and> 25 \<le> y \<and> y < 75 then 0
      else if \<not> list_ex (\<lambda>t. occupies t 1) toks \<and> 275 \<le> x \<and> x < 325 \<and> 25 \<le> y \<and> y < 75 then 1
      else if \<not> list_ex (\<lambda>t. occupies t 2) toks \<and> 525 \<le> x \<and> x < 575 \<and> 25 \<le> y \<and> y < 75 then 2
      else if \<not> list_ex (\<lambda>t. occupies t 3) toks \<and> 25 \<le> x \<and> x < 75 \<and> 275 \<le> y \<and> y < 325 then 3
      else if \<not> list_ex (\<lambda>t. occupies t 4) toks \<and> 275 \<le> x \<and> x < 325 \<and> 275 \<le> y \<and> y < 325 then 4
      else if \<not> list_ex (\<lambda>t. occupies t 5) toks \<and> 525 \<le> x \<and> x < 575 \<and> 275 \<le> y \<and> y < 325 then 5
      else if \<not> list_ex (\<lambda>t. occupies t 6) toks \<and> 25 \<le> x \<and> x < 75 \<and> 525 \<le> y \<and> y < 575 then 6
      else if \<not> list_ex (\<lambda>t. occupies t 7) toks \<and> 275 \<le> x \<and> x < 325 \<and> 525 \<le> y \<and> y < 575 then 7
      else if \<not> list_ex (\<lambda>t. occupies t 8) toks \<and> 525 \<le> x \<and> x < 575 \<and> 525 \<le> y \<and> y < 575 then 8
      else - 1)"
  by (simp add: getFreeSlotUnderMouse_def slots_def slotArea_def contains_def mkRect_def)

lemma underMouse_eval:
  "underMouse (x, y) 0 = (25 \<le> x \<and> x < 75 \<and> 25 \<le> y \<and> y < 75)"
  "underMouse (x, y) 1 = (275 \<le> x \<and> x < 325 \<and> 25 \<le> y \<and> y < 75)"
  "underMouse (x, y) 2 = (525 \<le> x \<and> x < 575 \<and> 25 \<le> y \<and> y < 75)"
  "underMouse (x, y) 3 = (25 \<le> x \<and> x < 75 \<and> 275 \<le> y \<and> y < 325)"
  "underMouse (x, y) 4 = (275 \<le> x \<and> x < 325 \<and> 275 \<le> y \<and> y < 325)"
  "underMouse (x, y) 5 = (525 \<le> x \<and> x < 575 \<and> 275 \<le> y \<and> y < 325)"
  "underMouse (x, y) 6 = (25 \<le> x \<and> x < 75 \<and> 525 \<le> y \<and> y < 575)"
  "underMouse (x, y) 7 = (275 \<le> x \<and> x < 325 \<and> 525 \<le> y \<and> y < 575)"
  "underMouse (x, y) 8 = (525 \<le> x \<and> x < 575 \<and> 525 \<le> y \<and> y < 575)"
  by (simp_all add: underMouse_def at_index_slots_eval slotArea_def contains_def mkRect_def)

lemma slotFree_iff: "slotFree toks i \<longleftrightarrow> \<not> list_ex (\<lambda>t. occupies t i) toks"
  by (auto simp: slotFree_def occupies_def list_ex_iff)

lemma underMouse_unique:
  assumes "i \<in> set slot_ids" "j \<in> set slot_ids" "underMouse pos i" "underMouse pos j"
  shows "i = j"
proof -
  obtain x y where p: "pos = (x, y)" by (cases pos)
  show ?thesis
    using slot_cases [OF assms(1)] slot_cases [OF assms(2)] assms(3,4) unfolding p
    by (elim disjE; simp add: underMouse_eval)
qed

lemma getFreeSlot_found:
  assumes "getFreeSlotUnderMouse pos toks \<noteq> - 1"
  shows "getFreeSlotUnderMouse pos toks \<in> set slot_ids \<and>
         slotFree toks (getFreeSlotUnderMouse pos toks) \<and>
         underMouse pos (getFreeSlotUnderMouse pos toks)"
proof -
  obtain x y where p: "pos = (x, y)" by (cases pos)
  show ?thesis using assms unfolding p getFreeSlot_unfold slotFree_iff
    by (simp add: underMouse_eval slot_ids_def split: if_splits)
qed

lemma getFreeSlot_free:
  assumes "i \<in> set slot_ids" "slotFree toks i" "underMouse pos i"
  shows "getFreeSlotUnderMouse pos toks = i"
proof -
  obtain x y where p: "pos = (x, y)" by (cases pos)
  show ?thesis
    using slot_cases [OF assms(1)] assms(2,3) unfolding p getFreeSlot_unfold slotFree_iff
    by (elim disjE; simp add: underMouse_eval)
qed

lemma getFreeSlot_none:
  assumes "\<forall>i\<in>set slot_ids. \<not> (slotFree toks i \<and> underMouse pos i)"
  shows "getFreeSlotUnderMouse pos toks = - 1"
  using assms getFreeSlot_found by blast

subsection \<open>The invariant\<close>

lemma filter_update_le:
  "(P y \<Longrightarrow> P (xs ! j)) \<Longrightarrow> length (filter P (xs[j := y])) \<le> length (filter P xs)"
proof (induction xs arbitrary: j)
  case Nil
  then show ?case by simp
next
  case (Cons x xs)
  then show ?case by (cases j) auto
qed

lemma filter_update_none:
  "\<forall>x\<in>set xs. \<not> P x \<Longrightarrow> length (filter P (xs[j := y])) \<le> 1"
proof (induction xs arbitrary: j)
  case Nil
  then show ?case by simp
next
  case (Cons x xs)
  show ?case
  proof (cases j)
    case 0
    with Cons.prems show ?thesis by (simp add: filter_empty_conv)
  next
    case (Suc k)
    with Cons show ?thesis by simp
  qed
qed

lemma onePerSlot_append:
  assumes "onePerSlot toks" "slotFree toks (slotIndex t)" "\<not> moving t"
  shows "onePerSlot (toks @ [t])"
  unfolding onePerSlot_def
proof
  fix s
  show "length (filter (\<lambda>t. occupies t s) (toks @ [t])) \<le> 1"
  proof (cases "occupies t s")
    case False
    with assms(1) show ?thesis by (simp add: onePerSlot_def)
  next
    case True
    with assms(3) have "s = slotIndex t" by (simp add: occupies_def)
    with assms(2) have "filter (\<lambda>t. occupies t s) toks = []"
      by (simp add: slotFree_iff list_ex_iff filter_empty_conv)
    then show ?thesis by simp
  qed
qed

lemma onePerSlot_update_shrink:
  assumes "onePerSlot toks" "\<And>s. occupies t' s \<Longrightarrow> occupies (toks ! j) s"
  shows "onePerSlot (toks[j := t'])"
  unfolding onePerSlot_def
proof
  fix s
  have "length (filter (\<lambda>t. occupies t s) (toks[j := t']))
      \<le> length (filter (\<lambda>t. occupies t s) toks)"
    by (rule filter_update_le) (rule assms(2))
  also have "\<dots> \<le> 1" using assms(1) by (simp add: onePerSlot_def)
  finally show "length (filter (\<lambda>t. occupies t s) (toks[j := t'])) \<le> 1" .
qed

lemma occupies_beginMove:
  "\<not> moving t \<Longrightarrow> occupies (beginMove t target s) i \<longleftrightarrow> occupies t i \<or> i = target"
  by (auto simp: occupies_def beginMove_def)

lemma onePerSlot_beginMove:
  assumes "onePerSlot toks" "\<not> moving (toks ! j)" "slotFree toks target"
  shows "onePerSlot (toks[j := beginMove (toks ! j) target s])"
  unfolding onePerSlot_def
proof
  fix i
  show "length (filter (\<lambda>t. occupies t i) (toks[j := beginMove (toks ! j) target s])) \<le> 1"
  proof (cases "i = target")
    case True
    from assms(3) have "\<forall>x\<in>set toks. \<not> occupies x target"
      by (simp add: slotFree_iff list_ex_iff)
    then show ?thesis unfolding True by (rule filter_update_none)
  next
    case False
    have "length (filter (\<lambda>t. occupies t i) (toks[j := beginMove (toks ! j) target s]))
        \<le> length (filter (\<lambda>t. occupies t i) toks)"
      by (rule filter_update_le) (simp add: occupies_beginMove [OF assms(2)] False)
    also have "\<dots> \<le> 1" using assms(1) by (simp add: onePerSlot_def)
    finally show ?thesis .
  qed
qed

lemma tokensOK_update:
  assumes "\<forall>t\<in>set xs. tokenOK t" "tokenOK y"
  shows "\<forall>t\<in>set (xs[j := y]). tokenOK t"
  using assms set_update_subset_insert [of xs j y] by auto

lemma firstHit_Some:
  "firstHit pl p toks = Some i \<Longrightarrow>
   i < length toks \<and> owner (toks ! i) = pl \<and> contains (getGlobalBounds (toks ! i)) p"
proof (induction toks arbitrary: i)
  case Nil
  then show ?case by simp
next
  case (Cons t toks)
  then show ?case by (auto split: if_splits)
qed

lemma firstHit_None:
  "firstHit pl p toks = None \<longleftrightarrow>
   (\<forall>t\<in>set toks. \<not> (owner t = pl \<and> contains (getGlobalBounds t) p))"
  by (induction toks) auto

lemma tokenOK_newToken: "slot \<in> set slot_ids \<Longrightarrow> tokenOK (newToken tex pl slot s)"
  by (simp add: tokenOK_def newToken_def)

lemma placeClick_result:
  assumes "placeClick texA texB wp g p = Some (f, g')"
  shows "g' = g \<or>
    (getFreeSlotUnderMouse p (tokens g) \<in> set slot_ids \<and>
     slotFree (tokens g) (getFreeSlotUnderMouse p (tokens g)) \<and>
     underMouse p (getFreeSlotUnderMouse p (tokens g)) \<and>
     (\<exists>s. tokens g' = tokens g @ [newToken (if turn g = A then texA else texB) (turn g)
              (getFreeSlotUnderMouse p (tokens g)) s]) \<and>
     selectedTok g' = selectedTok g \<and> windowOpen g' = windowOpen g \<and>
     (phase g' = Win \<or>
      startButtonBounds g' = startButtonBounds g \<and>
      (phase g' = phase g \<or> phase g' = Movement)))"
proof (cases "getFreeSlotUnderMouse p (tokens g) = - 1")
  case True
  with assms show ?thesis by (simp add: placeClick_def)
next
  case False
  note fs = getFreeSlot_found [OF False]
  let ?slot = "getFreeSlotUnderMouse p (tokens g)"
  from assms False obtain s won where
    s: "at_index slots ?slot = Some s" and
    w: "checkWin (tokens g @ [newToken (if turn g = A then texA else texB) (turn g) ?slot s])
          (turn g) wp = Some won"
    by (auto simp: placeClick_def Let_def split: option.splits)
  let ?toks = "tokens g @ [newToken (if turn g = A then texA else texB) (turn g) ?slot s]"
  have "tokens g' = ?toks \<and> selectedTok g' = selectedTok g \<and> windowOpen g' = windowOpen g \<and>
     (phase g' = Win \<or>
      startButtonBounds g' = startButtonBounds g \<and>
      (phase g' = phase g \<or> phase g' = Movement))"
  proof (cases won)
    case True
    with assms False s w show ?thesis
      by (auto simp: placeClick_def Let_def)
  next
    case nw: False
    with assms False s w show ?thesis
      by (cases "turn g = A") (auto simp: placeClick_def Let_def split: if_splits)
  qed
  with fs show ?thesis by blast
qed

lemma placeClick_inv:
  assumes "gameInv g" "phase g = Placement" "placeClick texA texB wp g p = Some (f, g')"
  shows "gameInv g'"
proof -
  from placeClick_result [OF assms(3)] show ?thesis
  proof
    assume "g' = g"
    with assms(1) show ?thesis by simp
  next
    let ?slot = "getFreeSlotUnderMouse p (tokens g)"
    assume "?slot \<in> set slot_ids \<and>
     slotFree (tokens g) ?slot \<and> underMouse p ?slot \<and>
     (\<exists>s. tokens g' = tokens g @ [newToken (if turn g = A then texA else texB) (turn g)
              ?slot s]) \<and>
     selectedTok g' = selectedTok g \<and> windowOpen g' = windowOpen g \<and>
     (phase g' = Win \<or>
      startButtonBounds g' = startButtonBounds g \<and>
      (phase g' = phase g \<or> phase g' = Movement))"
    then obtain s where
      r: "?slot \<in> set slot_ids" "slotFree (tokens g) ?slot"
        "tokens g' = tokens g @ [newToken (if turn g = A then texA else texB) (turn g) ?slot s]"
        "selectedTok g' = selectedTok g"
        "phase g' = Win \<or> startButtonBounds g' = startButtonBounds g \<and>
          (phase g' = phase g \<or> phase g' = Movement)"
      by blast
    have "onePerSlot (tokens g')"
      unfolding r(3) using assms(1) r(2)
      by (intro onePerSlot_append) (simp_all add: gameInv_def newToken_def)
    moreover have "wellFormed g'"
      using assms(1,2) r(3,4,5) tokenOK_newToken [OF r(1)]
      by (auto simp: gameInv_def wellFormed_def)
    ultimately show ?thesis by (simp add: gameInv_def)
  qed
qed

lemma occupies_selected [simp]: "occupies (t\<lparr>selected := b\<rparr>) s = occupies t s"
  by (simp add: occupies_def)

lemma tokenOK_selected [simp]: "tokenOK (t\<lparr>selected := b\<rparr>) = tokenOK t"
  by (simp add: tokenOK_def)

lemma occupies_spritePos [simp]: "occupies (t\<lparr>spritePos := b\<rparr>) s = occupies t s"
  by (simp add: occupies_def)

lemma tokenOK_spritePos [simp]: "tokenOK (t\<lparr>spritePos := b\<rparr>) = tokenOK t"
  by (simp add: tokenOK_def)

lemma tokenOK_beginMove:
  "tokenOK t \<Longrightarrow> target \<in> set slot_ids \<Longrightarrow> tokenOK (beginMove t target s)"
  by (simp add: tokenOK_def beginMove_def)

text \<open>
  What a click in the Movement phase can do.
\<close>

lemma moveClick_result:
  assumes "moveClick g p = Some (f, g')"
  shows "f = Continue \<and> phase g' = phase g \<and> turn g' = turn g \<and>
     startButtonBounds g' = startButtonBounds g \<and> windowOpen g' = windowOpen g \<and>
     placedA g' = placedA g \<and> placedB g' = placedB g \<and>
     (g' = g \<or>
      (\<exists>i. firstHit (turn g) p (tokens g) = Some i \<and> selectedTok g' = Some i \<and>
         (selectedTok g = None \<and>
            tokens g' = (tokens g)[i := (tokens g ! i)\<lparr>selected := True\<rparr>] \<or>
          (\<exists>j. selectedTok g = Some j \<and> j < length (tokens g) \<and>
            tokens g' = ((tokens g)[j := (tokens g ! j)\<lparr>selected := False\<rparr>])
               [i := (((tokens g)[j := (tokens g ! j)\<lparr>selected := False\<rparr>]) ! i)
                        \<lparr>selected := True\<rparr>]))) \<or>
      (\<exists>j target s. firstHit (turn g) p (tokens g) = None \<and>
         selectedTok g = Some j \<and> j < length (tokens g) \<and> \<not> moving (tokens g ! j) \<and>
         target = getFreeSlotUnderMouse p (tokens g) \<and> target \<noteq> - 1 \<and>
         isAdjacent (slotIndex (tokens g ! j)) target = Some True \<and>
         at_index slots target = Some s \<and> selectedTok g' = selectedTok g \<and>
         tokens g' = (tokens g)[j := beginMove (tokens g ! j) target s]))"
  using assms
  by (auto simp: moveClick_def Let_def split: option.splits if_splits)

lemma moveClick_inv:
  assumes "gameInv g" "phase g = Movement" "moveClick g p = Some (f, g')"
  shows "gameInv g'"
proof -
  note r = moveClick_result [OF assms(3)]
  from assms(1) have ok: "\<forall>t\<in>set (tokens g). tokenOK t" and ops: "onePerSlot (tokens g)"
    and sel: "\<forall>j. selectedTok g = Some j \<longrightarrow> j < length (tokens g)"
    by (simp_all add: gameInv_def wellFormed_def)
  from r consider
    (same) "g' = g"
  | (sel0) i where "firstHit (turn g) p (tokens g) = Some i" "selectedTok g' = Some i"
      "tokens g' = (tokens g)[i := (tokens g ! i)\<lparr>selected := True\<rparr>]"
  | (sel1) i j where "firstHit (turn g) p (tokens g) = Some i" "selectedTok g' = Some i"
      "j < length (tokens g)"
      "tokens g' = ((tokens g)[j := (tokens g ! j)\<lparr>selected := False\<rparr>])
               [i := (((tokens g)[j := (tokens g ! j)\<lparr>selected := False\<rparr>]) ! i)
                        \<lparr>selected := True\<rparr>]"
  | (move) j target s where "selectedTok g = Some j" "j < length (tokens g)"
      "\<not> moving (tokens g ! j)" "target = getFreeSlotUnderMouse p (tokens g)" "target \<noteq> - 1"
      "selectedTok g' = selectedTok g"
      "tokens g' = (tokens g)[j := beginMove (tokens g ! j) target s]"
    by blast
  then have "(\<forall>t\<in>set (tokens g'). tokenOK t) \<and> onePerSlot (tokens g') \<and>
      (\<forall>j. selectedTok g' = Some j \<longrightarrow> j < length (tokens g'))"
  proof cases
    case same
    with ok ops sel show ?thesis by simp
  next
    case sel0
    from firstHit_Some [OF sel0(1)] have i: "i < length (tokens g)" by simp
    then have "tokenOK ((tokens g ! i)\<lparr>selected := True\<rparr>)" using ok by simp
    with ok have "\<forall>t\<in>set (tokens g'). tokenOK t"
      unfolding sel0(3) by (rule tokensOK_update)
    moreover from ops have "onePerSlot (tokens g')"
      unfolding sel0(3) by (rule onePerSlot_update_shrink) simp
    ultimately show ?thesis using i sel0(2,3) by simp
  next
    case sel1
    let ?t1 = "(tokens g)[j := (tokens g ! j)\<lparr>selected := False\<rparr>]"
    from firstHit_Some [OF sel1(1)] have i: "i < length (tokens g)" by simp
    have "tokenOK ((tokens g ! j)\<lparr>selected := False\<rparr>)" using ok sel1(3) by simp
    with ok have ok1: "\<forall>t\<in>set ?t1. tokenOK t"
      by (rule tokensOK_update)
    from ops have ops1: "onePerSlot ?t1"
      by (rule onePerSlot_update_shrink) simp
    have "tokenOK ((?t1 ! i)\<lparr>selected := True\<rparr>)" using ok1 i by simp
    with ok1 have "\<forall>t\<in>set (tokens g'). tokenOK t"
      unfolding sel1(4) by (rule tokensOK_update)
    moreover from ops1 have "onePerSlot (tokens g')"
      unfolding sel1(4) by (rule onePerSlot_update_shrink) simp
    ultimately show ?thesis using i sel1(2,4) by simp
  next
    case move
    from move(4,5) getFreeSlot_found [of p "tokens g"]
    have t: "target \<in> set slot_ids" "slotFree (tokens g) target" by simp_all
    have "tokenOK (tokens g ! j)" using ok move(2) by simp
    then have "tokenOK (beginMove (tokens g ! j) target s)"
      using t(1) by (rule tokenOK_beginMove)
    with ok have "\<forall>t\<in>set (tokens g'). tokenOK t"
      unfolding move(7) by (rule tokensOK_update)
    moreover have "onePerSlot (tokens g')"
      unfolding move(7) using ops move(3) t(2) by (rule onePerSlot_beginMove)
    ultimately show ?thesis using sel move(6,7) by simp
  qed
  with r assms(1,2) show ?thesis by (simp add: gameInv_def wellFormed_def)
qed

lemma gameInv_no_tokens:
  "phase g = Placement \<or> phase g = Movement \<longrightarrow> startButtonBounds g = mkRect 340 620 240 80 \<Longrightarrow>
   tokens g = [] \<Longrightarrow> selectedTok g = None \<Longrightarrow> gameInv g"
  by (simp add: gameInv_def wellFormed_def onePerSlot_def)

lemma gameInv_other_fields:
  assumes "gameInv g" "tokens g' = tokens g" "selectedTok g' = selectedTok g"
    "phase g' = Placement \<or> phase g' = Movement \<longrightarrow> startButtonBounds g' = mkRect 340 620 240 80"
    "phase g = Movement \<longrightarrow> phase g' = Movement"
  shows "gameInv g'"
  using assms by (auto simp: gameInv_def wellFormed_def)

text \<open>
  The click handler on and off the start button.
\<close>

lemma handleClick_on_button:
  assumes "contains (startButtonBounds g) p"
  shows "handleClick texA texB wp g p =
     Some (Returned,
       if phase g = Instructions \<or> phase g = About
       then g\<lparr>phase := Start, startButtonBounds := mkRect 165 440 275 100\<rparr>
       else if phase g = Start
       then g\<lparr>phase := Placement, startButtonBounds := mkRect 340 620 240 80\<rparr>
       else resetGame g)"
  using assms by (simp add: handleClick_def)

lemma handleClick_off_button:
  assumes "\<not> contains (startButtonBounds g) p"
  shows "handleClick texA texB wp g p =
     (case phase g of
        Start \<Rightarrow>
          if contains instructionsButtonBounds p
          then Some (Returned, g\<lparr>phase := Instructions, startButtonBounds := mkRect 165 665 275 100\<rparr>)
          else if contains aboutButtonBounds p
          then Some (Returned, g\<lparr>phase := About, startButtonBounds := mkRect 165 665 275 100\<rparr>)
          else Some (Continue, g)
      | Win \<Rightarrow>
          if contains exitButtonBounds p then Some (Returned, g\<lparr>windowOpen := False\<rparr>)
          else Some (Continue, g)
      | Placement \<Rightarrow> placeClick texA texB wp g p
      | Movement \<Rightarrow> moveClick g p
      | _ \<Rightarrow> Some (Continue, g))"
  using assms by (cases "phase g") (simp_all add: handleClick_def)

lemma gameInv_resetGame: "gameInv (resetGame g)"
  by (rule gameInv_no_tokens) (simp_all add: resetGame_def)

lemma handleClick_inv:
  assumes "gameInv g" "handleClick texA texB wp g p = Some (f, g')"
  shows "gameInv g'"
proof (cases "contains (startButtonBounds g) p")
  case True
  from assms(2) have g': "g' = (if phase g = Instructions \<or> phase g = About
       then g\<lparr>phase := Start, startButtonBounds := mkRect 165 440 275 100\<rparr>
       else if phase g = Start
       then g\<lparr>phase := Placement, startButtonBounds := mkRect 340 620 240 80\<rparr>
       else resetGame g)"
    unfolding handleClick_on_button [OF True] by simp
  show ?thesis
  proof (cases "phase g = Instructions \<or> phase g = About \<or> phase g = Start")
    case False
    with g' show ?thesis by (simp add: gameInv_resetGame)
  next
    case t: True
    with assms(1) g' show ?thesis
      by (intro gameInv_other_fields [of g g']) auto
  qed
next
  case False
  note h = assms(2) [unfolded handleClick_off_button [OF False]]
  show ?thesis
  proof (cases "phase g")
    case Start
    with h have "tokens g' = tokens g \<and> selectedTok g' = selectedTok g \<and> phase g' \<noteq> Placement
        \<and> phase g' \<noteq> Movement"
      by (auto split: if_splits)
    with assms(1) Start show ?thesis by (intro gameInv_other_fields [of g g']) simp_all
  next
    case About
    with h assms(1) show ?thesis by simp
  next
    case Instructions
    with h assms(1) show ?thesis by simp
  next
    case Placement
    with h assms(1) show ?thesis by (simp add: placeClick_inv)
  next
    case Movement
    with h assms(1) show ?thesis by (simp add: moveClick_inv [of g p f g'])
  next
    case Win
    with h have "tokens g' = tokens g \<and> selectedTok g' = selectedTok g \<and> phase g' = Win"
      by (auto split: if_splits)
    with assms(1) Win show ?thesis by (intro gameInv_other_fields [of g g']) simp_all
  qed
qed

lemma handleEvent_inv:
  assumes "gameInv g" "handleEvent texA texB wp ev g = Some (f, g')"
  shows "gameInv g'"
proof (cases ev)
  case Closed
  with assms(2) have "g' = g\<lparr>windowOpen := False\<rparr>" by (simp add: handleEvent_def)
  with assms(1) show ?thesis by (simp add: gameInv_def wellFormed_def)
next
  case (MouseButtonPressed b x y)
  show ?thesis
  proof (cases b)
    case LeftButton
    with assms(2) MouseButtonPressed
    have "handleClick texA texB wp g (real_of_int x, real_of_int y) = Some (f, g')"
      by (simp add: handleEvent_def)
    with assms(1) show ?thesis by (rule handleClick_inv)
  next
    case OtherButton
    with assms MouseButtonPressed show ?thesis by (simp add: handleEvent_def)
  qed
next
  case OtherEvent
  with assms show ?thesis by (simp add: handleEvent_def)
qed

lemma occupies_arrive: "moving t \<Longrightarrow> occupies (arrive t) s \<Longrightarrow> occupies t s"
  by (simp add: occupies_def arrive_def)

lemma tokenOK_arrive: "moving t \<Longrightarrow> tokenOK t \<Longrightarrow> tokenOK (arrive t)"
  by (simp add: tokenOK_def arrive_def)

text \<open>
  What the loop body of \<open>updateTokens\<close> can do to the state.
\<close>

lemma updateToken_result:
  assumes "updateToken dt speed wp i g = Some g'"
  shows "g' = g \<or>
     (moving (tokens g ! i) \<and>
      ((\<exists>pos. g' = g\<lparr>tokens := (tokens g)[i := (tokens g ! i)\<lparr>spritePos := pos\<rparr>]\<rparr>) \<or>
       (\<exists>won. checkWin ((tokens g)[i := arrive (tokens g ! i)]) (owner (tokens g ! i)) wp
                  = Some won \<and>
          g' = (if won
                then g\<lparr>tokens := (tokens g)[i := arrive (tokens g ! i)], phase := Win,
                       startButtonBounds := mkRect 165 510 275 100\<rparr>
                else g\<lparr>tokens := (tokens g)[i := arrive (tokens g ! i)]\<rparr>)
               \<lparr>selectedTok := None, turn := other (turn g)\<rparr>)))"
proof (cases "moving (tokens g ! i)")
  case False
  with assms show ?thesis by (simp add: updateToken_def Let_def)
next
  case True
  show ?thesis
  proof (cases "vlen (vsub (targetPos (tokens g ! i)) (spritePos (tokens g ! i))) < speed * dt")
    case False
    let ?t = "tokens g ! i"
    let ?dir = "vsub (targetPos ?t) (spritePos ?t)"
    let ?pos = "vadd (spritePos ?t)
       (fst ?dir / vlen ?dir * speed * dt, snd ?dir / vlen ?dir * speed * dt)"
    from assms True False
    have "g' = g\<lparr>tokens := (tokens g)[i := ?t\<lparr>spritePos := ?pos\<rparr>]\<rparr>"
      by (auto simp: updateToken_def Let_def)
    with True show ?thesis by blast
  next
    case near: True
    let ?toks = "(tokens g)[i := arrive (tokens g ! i)]"
    from assms True near obtain won where
      w: "checkWin ?toks (owner (tokens g ! i)) wp = Some won"
      by (auto simp: updateToken_def Let_def arrive_def split: option.splits)
    with assms True near
    have "g' = (if won
                then g\<lparr>tokens := ?toks, phase := Win,
                       startButtonBounds := mkRect 165 510 275 100\<rparr>
                else g\<lparr>tokens := ?toks\<rparr>)
               \<lparr>selectedTok := None, turn := other (turn g)\<rparr>"
      by (auto simp: updateToken_def Let_def arrive_def)
    with True w show ?thesis by blast
  qed
qed

lemma updateToken_inv:
  assumes "gameInv g" "i < length (tokens g)" "updateToken dt speed wp i g = Some g'"
  shows "gameInv g' \<and> length (tokens g') = length (tokens g)"
proof -
  from assms(1) have ok: "\<forall>t\<in>set (tokens g). tokenOK t" and ops: "onePerSlot (tokens g)"
    and rest: "\<forall>j. selectedTok g = Some j \<longrightarrow> j < length (tokens g)"
      "phase g \<noteq> Movement \<longrightarrow> selectedTok g = None"
      "phase g = Placement \<or> phase g = Movement \<longrightarrow> startButtonBounds g = mkRect 340 620 240 80"
    by (simp_all add: gameInv_def wellFormed_def)
  from assms(2) ok have oki: "tokenOK (tokens g ! i)" by simp
  from updateToken_result [OF assms(3)] consider
    (same) "g' = g"
  | (step) pos where "moving (tokens g ! i)"
      "g' = g\<lparr>tokens := (tokens g)[i := (tokens g ! i)\<lparr>spritePos := pos\<rparr>]\<rparr>"
  | (land) won where "moving (tokens g ! i)"
      "g' = (if won
                then g\<lparr>tokens := (tokens g)[i := arrive (tokens g ! i)], phase := Win,
                       startButtonBounds := mkRect 165 510 275 100\<rparr>
                else g\<lparr>tokens := (tokens g)[i := arrive (tokens g ! i)]\<rparr>)
               \<lparr>selectedTok := None, turn := other (turn g)\<rparr>"
    by blast
  then show ?thesis
  proof cases
    case same
    with assms(1) show ?thesis by simp
  next
    case step
    from oki have "tokenOK ((tokens g ! i)\<lparr>spritePos := pos\<rparr>)" by simp
    with ok have "\<forall>t\<in>set ((tokens g)[i := (tokens g ! i)\<lparr>spritePos := pos\<rparr>]). tokenOK t"
      by (rule tokensOK_update)
    moreover from ops have "onePerSlot ((tokens g)[i := (tokens g ! i)\<lparr>spritePos := pos\<rparr>])"
      by (rule onePerSlot_update_shrink) simp
    ultimately show ?thesis using rest step(2) by (simp add: gameInv_def wellFormed_def)
  next
    case land
    from land(1) oki have "tokenOK (arrive (tokens g ! i))" by (rule tokenOK_arrive)
    with ok have "\<forall>t\<in>set ((tokens g)[i := arrive (tokens g ! i)]). tokenOK t"
      by (rule tokensOK_update)
    moreover from ops have "onePerSlot ((tokens g)[i := arrive (tokens g ! i)])"
      by (rule onePerSlot_update_shrink) (rule occupies_arrive [OF land(1)])
    ultimately show ?thesis using rest land(2)
      by (cases won) (simp_all add: gameInv_def wellFormed_def)
  qed
qed

lemma updateTokens_loop_inv:
  assumes "gameInv g" "\<forall>i\<in>set is. i < length (tokens g)"
    "updateTokens_loop dt speed wp is g = Some g'"
  shows "gameInv g'"
  using assms
proof (induction "is" arbitrary: g)
  case Nil
  then show ?case by simp
next
  case (Cons i "is")
  from Cons.prems(3) obtain g1 where
    g1: "updateToken dt speed wp i g = Some g1" "updateTokens_loop dt speed wp is g1 = Some g'"
    by (auto split: option.splits)
  have "i < length (tokens g)" using Cons.prems(2) by simp
  with Cons.prems(1) have "gameInv g1 \<and> length (tokens g1) = length (tokens g)"
    using g1(1) by (rule updateToken_inv)
  with Cons.prems(2) g1(2) show ?case by (intro Cons.IH [of g1]) simp_all
qed

lemma updateTokens_inv:
  assumes "gameInv g" "updateTokens dt speed wp g = Some g'"
  shows "gameInv g'"
proof (rule updateTokens_loop_inv [OF assms(1)])
  show "\<forall>i\<in>set [0..<length (tokens g)]. i < length (tokens g)" by simp
  show "updateTokens_loop dt speed wp [0..<length (tokens g)] g = Some g'"
    using assms(2) by (simp add: updateTokens_def)
qed

lemma gameInv_initial: "gameInv initialGame"
  by (rule gameInv_no_tokens) (simp_all add: initialGame_def)

lemma reachable_gameInv:
  assumes "reachable texA texB g"
  shows "gameInv g"
  using assms
proof (induction rule: reachable.induct)
  case reach_init
  show ?case by (rule gameInv_initial)
next
  case (reach_event g ev f g')
  then show ?case by (blast intro: handleEvent_inv)
next
  case (reach_update g dt g')
  then show ?case by (blast intro: updateTokens_inv)
qed

text \<open>
  Claim C6. In every reachable state and for every slot \<open>s\<close>, at most one token has \<open>s\<close>
  as its current slot index or, while in transit, as its pending destination.
\<close>

theorem one_token_per_slot:
  assumes "reachable tokenATex tokenBTex g"
  shows "length (filter (\<lambda>t. slotIndex t = s \<or> (moving t \<and> nextSlotIndex t = s)) (tokens g)) \<le> 1"
  using reachable_gameInv [OF assms]
  by (simp add: gameInv_def onePerSlot_def occupies_def)

subsection \<open>The Win phase\<close>

text \<open>
  In phase Win a click does nothing to the game unless it is on the start button, which is
  the reset: a click on the exit button only closes the window, any other click leaves the
  state as it is. So no click creates, selects or starts a token there.
\<close>

lemma win_phase_clicks:
  assumes "phase g = Win"
  shows "handleClick tokenATex tokenBTex winProducts g mousePos =
     Some (if contains (startButtonBounds g) mousePos then (Returned, resetGame g)
           else if contains exitButtonBounds mousePos then (Returned, g\<lparr>windowOpen := False\<rparr>)
           else (Continue, g))"
  using assms by (simp add: handleClick_def)

text \<open>
  The motion update asks for no phase. It leaves a state alone exactly as far as no token
  is in transit: with every token at rest it changes nothing, in phase Win as in any other.
\<close>

lemma updateTokens_loop_at_rest:
  assumes "\<forall>t\<in>set (tokens g). \<not> moving t" "\<forall>i\<in>set is. i < length (tokens g)"
  shows "updateTokens_loop dt speed wp is g = Some g"
  using assms(2)
proof (induction "is")
  case Nil
  then show ?case by simp
next
  case (Cons i "is")
  then have "tokens g ! i \<in> set (tokens g)" by simp
  with assms(1) have "\<not> moving (tokens g ! i)" by blast
  then have "updateToken dt speed wp i g = Some g" by (simp add: updateToken_def Let_def)
  with Cons show ?case by simp
qed

lemma updateTokens_at_rest:
  assumes "\<forall>t\<in>set (tokens g). \<not> moving t"
  shows "updateTokens dt speed wp g = Some g"
  unfolding updateTokens_def by (rule updateTokens_loop_at_rest [OF assms]) simp

subsection \<open>Rejected placements\<close>

lemma slot_not_on_reset_button:
  assumes "s \<in> set slot_ids" "underMouse p s"
  shows "\<not> contains (mkRect 340 620 240 80) p"
proof -
  obtain x y where p: "p = (x, y)" by (cases p)
  show ?thesis
    using slot_cases [OF assms(1)] assms(2) unfolding p
    by (elim disjE; simp add: underMouse_eval contains_def mkRect_def)
qed

lemma placeClick_taken:
  assumes "s \<in> set slot_ids" "underMouse p s" "\<not> slotFree toks s"
  shows "getFreeSlotUnderMouse p toks = - 1"
proof (rule getFreeSlot_none, intro ballI notI)
  fix i assume i: "i \<in> set slot_ids" "slotFree toks i \<and> underMouse p i"
  then have "i = s" using assms(1,2) by (intro underMouse_unique [of i s p]) simp_all
  with i assms(3) show False by simp
qed

text \<open>
  In a reachable state in phase Placement the start button lies below the board, so a
  click over a slot is never a click on the button.
\<close>

lemma reachable_placement_off_button:
  assumes "reachable texA texB g" "phase g = Placement \<or> phase g = Movement"
    and "s \<in> set slot_ids" "underMouse p s"
  shows "\<not> contains (startButtonBounds g) p"
proof -
  from reachable_gameInv [OF assms(1)] assms(2)
  have "startButtonBounds g = mkRect 340 620 240 80"
    by (simp add: gameInv_def wellFormed_def)
  then show ?thesis by (simp add: slot_not_on_reset_button [OF assms(3,4)])
qed

text \<open>
  Claim C5. In phase Placement, a click that is not on the start button and lies over a
  slot that some token sits on, or that some token in transit is bound for, leaves the
  whole state unchanged: no token is created, and phase, turn, counts, selection and
  tokens stay. The state need not be reachable, so the statement covers a collection with
  tokens in transit.
\<close>

theorem placement_on_taken_slot_ignored:
  assumes "phase g = Placement" "\<not> contains (startButtonBounds g) mousePos"
    and "s \<in> set slot_ids" "underMouse mousePos s"
    and "(\<exists>t\<in>set (tokens g). slotIndex t = s) \<or>
         (\<exists>t\<in>set (tokens g). moving t \<and> nextSlotIndex t = s)"
  shows "handleClick tokenATex tokenBTex winProducts g mousePos = Some (Continue, g)"
proof -
  from assms(5) have "\<not> slotFree (tokens g) s"
    by (auto simp: slotFree_def list_ex_iff)
  with assms(3,4) have "getFreeSlotUnderMouse mousePos (tokens g) = - 1"
    by (rule placeClick_taken)
  then show ?thesis
    unfolding handleClick_off_button [OF assms(2)] by (simp add: assms(1) placeClick_def)
qed

subsection \<open>Accepted and rejected moves\<close>

lemma moveAccepted_slot: "moveAccepted g p S \<Longrightarrow> S \<in> set slot_ids"
  by (auto simp: moveAccepted_def underMouse_def at_index_def slots_def slot_ids_def
      split: option.splits if_splits intro: slot_idsI [unfolded slot_ids_def])

lemma slideTo_inj:
  assumes "slideTo g S' = slideTo g S" "selectedTok g = Some j" "j < length (tokens g)"
  shows "S' = S"
proof -
  from assms(1) have "tokens (slideTo g S') ! j = tokens (slideTo g S) ! j" by simp
  with assms(2,3) have "nextSlotIndex (beginMove (tokens g ! j) S' (slots ! nat S'))
      = nextSlotIndex (beginMove (tokens g ! j) S (slots ! nat S))"
    by (simp add: slideTo_def)
  then show ?thesis by (simp add: beginMove_def)
qed

lemma moveClick_spec:
  assumes hit: "firstHit (turn g) p (tokens g) = None"
    and wf: "\<forall>j. selectedTok g = Some j \<longrightarrow>
               j < length (tokens g) \<and> slotIndex (tokens g ! j) \<in> set slot_ids"
  shows "(\<forall>S\<in>set slot_ids. moveAccepted g p S \<longrightarrow>
            moveClick g p = Some (Continue, slideTo g S) \<and> slideTo g S \<noteq> g) \<and>
         ((\<forall>S\<in>set slot_ids. \<not> moveAccepted g p S) \<longrightarrow> moveClick g p = Some (Continue, g))"
proof (cases "selectedTok g")
  case None
  with hit show ?thesis by (simp add: moveClick_def moveAccepted_def)
next
  case (Some j)
  with wf have j: "j < length (tokens g)" and sj: "slotIndex (tokens g ! j) \<in> set slot_ids"
    by simp_all
  let ?sel = "tokens g ! j"
  let ?r = "getFreeSlotUnderMouse p (tokens g)"
  from slot_cases [OF sj] obtain adj where adj: "\<And>b. isAdjacent (slotIndex ?sel) b = Some (adj b)"
    by (elim disjE) (simp_all add: isAdjacent_eval)
  show ?thesis
  proof (intro conjI ballI impI)
    fix S assume S: "S \<in> set slot_ids" "moveAccepted g p S"
    then have a: "\<not> moving ?sel" "slotFree (tokens g) S" "underMouse p S"
      "isAdjacent (slotIndex ?sel) S = Some True"
      by (simp_all add: moveAccepted_def Some)
    from S(1) a(2,3) have r: "?r = S" by (rule getFreeSlot_free)
    from S(1) have sl: "at_index slots S = Some (slots ! nat S)" "S \<noteq> - 1"
      using slot_idsD [OF S(1)] by (simp_all add: at_index_def slots_def)
    show "moveClick g p = Some (Continue, slideTo g S)"
      by (simp add: moveClick_def Let_def hit Some j a(1,4) r sl slideTo_def)
    have "moving (tokens (slideTo g S) ! j)"
      using j by (simp add: slideTo_def Some beginMove_def)
    with a(1) show "slideTo g S \<noteq> g" by auto
  next
    assume no: "\<forall>S\<in>set slot_ids. \<not> moveAccepted g p S"
    show "moveClick g p = Some (Continue, g)"
    proof (cases "moving ?sel \<or> ?r = - 1")
      case True
      then show ?thesis by (auto simp: moveClick_def Let_def hit Some j)
    next
      case False
      then have f: "?r \<in> set slot_ids" "slotFree (tokens g) ?r" "underMouse p ?r"
        using getFreeSlot_found [of p "tokens g"] by simp_all
      with no False have "isAdjacent (slotIndex ?sel) ?r \<noteq> Some True"
        by (auto simp: moveAccepted_def Some)
      with adj have "isAdjacent (slotIndex ?sel) ?r = Some False" by simp
      with False show ?thesis by (simp add: moveClick_def Let_def hit Some j)
    qed
  qed
qed

text \<open>
  Claim C4. In a reachable state in phase Movement, take a click that is not on the start
  button and on none of the tokens of the player to move. If the move intent is accepted
  for slot \<open>S\<close> (a token is selected, it is not moving, \<open>S\<close> is free and under the click,
  and \<open>S\<close> is adjacent to the token's slot), the selected token begins its slide to
  \<open>S\<close>; if it is accepted for no slot, the state is unchanged, selection included.
\<close>

theorem move_accepted_iff:
  assumes "reachable tokenATex tokenBTex g" "phase g = Movement"
    and "\<not> contains (startButtonBounds g) mousePos"
    and "\<forall>t\<in>set (tokens g). \<not> (owner t = turn g \<and> contains (getGlobalBounds t) mousePos)"
  shows "(\<forall>S. handleClick tokenATex tokenBTex winProducts g mousePos
                 = Some (Continue, slideTo g S) \<and> slideTo g S \<noteq> g
              \<longleftrightarrow> moveAccepted g mousePos S) \<and>
         ((\<forall>S. \<not> moveAccepted g mousePos S) \<longrightarrow>
            handleClick tokenATex tokenBTex winProducts g mousePos = Some (Continue, g))"
proof -
  from assms(4) have hit: "firstHit (turn g) mousePos (tokens g) = None"
    by (simp add: firstHit_None)
  from reachable_gameInv [OF assms(1)]
  have wf: "\<forall>j. selectedTok g = Some j \<longrightarrow>
               j < length (tokens g) \<and> slotIndex (tokens g ! j) \<in> set slot_ids"
    by (auto simp: gameInv_def wellFormed_def tokenOK_def)
  have hc: "handleClick tokenATex tokenBTex winProducts g mousePos = moveClick g mousePos"
    unfolding handleClick_off_button [OF assms(3)] by (simp add: assms(2))
  note spec = moveClick_spec [OF hit wf]
  have acc: "moveClick g mousePos = Some (Continue, slideTo g S) \<and> slideTo g S \<noteq> g"
    if "moveAccepted g mousePos S" for S
    using spec that moveAccepted_slot [OF that] by blast
  have none: "moveClick g mousePos = Some (Continue, g)" if "\<forall>S. \<not> moveAccepted g mousePos S"
    using spec that by blast
  have conv: "moveAccepted g mousePos S"
    if s: "moveClick g mousePos = Some (Continue, slideTo g S)" "slideTo g S \<noteq> g" for S
  proof (rule ccontr)
    assume n: "\<not> moveAccepted g mousePos S"
    from s none obtain S' where a: "moveAccepted g mousePos S'" by auto
    from acc [OF a] s(1) have "slideTo g S' = slideTo g S" by simp
    moreover from a wf obtain j where "selectedTok g = Some j" "j < length (tokens g)"
      by (auto simp: moveAccepted_def split: option.splits)
    ultimately have "S' = S" by (rule slideTo_inj)
    with a n show False by simp
  qed
  from acc conv none show ?thesis unfolding hc by blast
qed

subsection \<open>Turn alternation\<close>

text \<open>
  A placement that wins keeps the turn and a placement that does not win passes it on.
  An arrival passes the turn on whether or not it wins: the assignment to \<open>turn\<close> in
  \<open>updateTokens\<close> stands after the win branch, not in its alternative.
\<close>

lemma placeClick_turn:
  assumes "placeClick texA texB wp g p = Some (f, g')" "g' \<noteq> g"
  shows "checkWin (tokens g') (turn g) wp = Some (f = Returned) \<and>
     (if f = Returned then phase g' = Win \<and> turn g' = turn g
      else turn g' = other (turn g))"
proof -
  let ?slot = "getFreeSlotUnderMouse p (tokens g)"
  from assms have ne: "?slot \<noteq> - 1" by (auto simp: placeClick_def)
  with assms(1) obtain s won where
    s: "at_index slots ?slot = Some s" and
    w: "checkWin (tokens g @ [newToken (if turn g = A then texA else texB) (turn g) ?slot s])
          (turn g) wp = Some won"
    by (auto simp: placeClick_def Let_def split: option.splits)
  show ?thesis
  proof (cases won)
    case True
    with assms(1) ne s w show ?thesis by (auto simp: placeClick_def Let_def)
  next
    case False
    with assms(1) ne s w show ?thesis
      by (cases "turn g = A") (auto simp: placeClick_def Let_def split: if_splits)
  qed
qed

lemma updateToken_arrival:
  assumes "moving (tokens g ! i)"
    and "vlen (vsub (targetPos (tokens g ! i)) (spritePos (tokens g ! i))) < speed * dt"
    and "updateToken dt speed wp i g = Some g'"
  shows "turn g' = other (turn g) \<and>
     (\<exists>won. checkWin (tokens g') (owner (tokens g ! i)) wp = Some won \<and>
        (won \<longrightarrow> phase g' = Win))"
proof -
  let ?toks = "(tokens g)[i := arrive (tokens g ! i)]"
  from assms obtain won where
    w: "checkWin ?toks (owner (tokens g ! i)) wp = Some won"
    by (auto simp: updateToken_def Let_def arrive_def split: option.splits)
  with assms show ?thesis
    by (cases won) (auto simp: updateToken_def Let_def arrive_def)
qed

subsection \<open>No undefined behaviour in reachable states\<close>

lemma checkWin_product_defined:
  assumes "\<forall>t\<in>set toks. tokenOK t"
  shows "\<exists>product. checkWin_product toks pl acc = Some product"
  using assms
proof (induction toks arbitrary: acc)
  case Nil
  then show ?case by simp
next
  case (Cons t toks)
  then have "slotIndex t \<in> set slot_ids" by (simp add: tokenOK_def)
  from at_index_slots [OF this] obtain s where "at_index slots (slotIndex t) = Some s" by blast
  with Cons show ?case by simp
qed

lemma checkWin_scan_defined:
  assumes "\<forall>p\<in>set ps. 0 < p"
  shows "\<exists>won. checkWin_scan product ps = Some won"
  using assms by (induction ps) auto

lemma checkWin_defined:
  assumes "\<forall>t\<in>set toks. tokenOK t"
  shows "\<exists>won. checkWin toks pl mainWinProducts = Some won"
proof -
  from checkWin_product_defined [OF assms] obtain product where
    "checkWin_product toks pl 1 = Some product" by blast
  moreover have "\<exists>won. checkWin_scan product mainWinProducts = Some won"
    by (rule checkWin_scan_defined) (simp add: mainWinProducts_eval)
  ultimately show ?thesis by (simp add: checkWin_def)
qed

lemma placeClick_defined:
  assumes "gameInv g"
  shows "\<exists>f g'. placeClick texA texB mainWinProducts g p = Some (f, g')"
proof (cases "getFreeSlotUnderMouse p (tokens g) = - 1")
  case True
  then show ?thesis by (simp add: placeClick_def)
next
  case False
  let ?slot = "getFreeSlotUnderMouse p (tokens g)"
  from getFreeSlot_found [OF False] have m: "?slot \<in> set slot_ids" by simp
  from at_index_slots [OF m] obtain s where s: "at_index slots ?slot = Some s" by blast
  let ?toks = "tokens g @ [newToken (if turn g = A then texA else texB) (turn g) ?slot s]"
  have "\<forall>t\<in>set ?toks. tokenOK t"
    using assms tokenOK_newToken [OF m] by (auto simp: gameInv_def wellFormed_def)
  from checkWin_defined [OF this] obtain won where
    "checkWin ?toks (turn g) mainWinProducts = Some won" by blast
  with False s show ?thesis by (simp add: placeClick_def Let_def)
qed

lemma moveClick_defined:
  assumes "gameInv g"
  shows "\<exists>f g'. moveClick g p = Some (f, g')"
proof (cases "selectedTok g")
  case None
  then show ?thesis by (simp add: moveClick_def split: option.splits)
next
  case (Some j)
  with assms have j: "j < length (tokens g)" by (simp add: gameInv_def wellFormed_def)
  with assms have sj: "slotIndex (tokens g ! j) \<in> set slot_ids"
    by (simp add: gameInv_def wellFormed_def tokenOK_def)
  show ?thesis
  proof (cases "firstHit (turn g) p (tokens g)")
    case hit: (Some i)
    with Some j show ?thesis by (simp add: moveClick_def Let_def)
  next
    case None
    let ?r = "getFreeSlotUnderMouse p (tokens g)"
    from slot_cases [OF sj] obtain adj where
      adj: "isAdjacent (slotIndex (tokens g ! j)) ?r = Some adj"
      by (elim disjE) (simp_all add: isAdjacent_eval)
    show ?thesis
    proof (cases "?r = - 1")
      case True
      with None Some j show ?thesis by (simp add: moveClick_def Let_def)
    next
      case False
      from getFreeSlot_found [OF False] have "?r \<in> set slot_ids" by simp
      from at_index_slots [OF this] obtain s where "at_index slots ?r = Some s" by blast
      with None Some j adj show ?thesis by (simp add: moveClick_def Let_def)
    qed
  qed
qed

lemma handleEvent_defined:
  assumes "gameInv g"
  shows "\<exists>f g'. handleEvent texA texB mainWinProducts ev g = Some (f, g')"
proof (cases ev)
  case (MouseButtonPressed b x y)
  show ?thesis
  proof (cases b)
    case LeftButton
    let ?p = "(real_of_int x, real_of_int y)"
    have "\<exists>f g'. handleClick texA texB mainWinProducts g ?p = Some (f, g')"
    proof (cases "contains (startButtonBounds g) ?p")
      case True
      then show ?thesis by (simp add: handleClick_on_button)
    next
      case False
      show ?thesis unfolding handleClick_off_button [OF False]
        using placeClick_defined [OF assms, of texA texB ?p] moveClick_defined [OF assms, of ?p]
        by (cases "phase g") simp_all
    qed
    with MouseButtonPressed LeftButton show ?thesis by (simp add: handleEvent_def)
  next
    case OtherButton
    with MouseButtonPressed show ?thesis by (simp add: handleEvent_def)
  qed
qed (simp_all add: handleEvent_def)

lemma updateToken_defined:
  assumes "gameInv g" "i < length (tokens g)"
  shows "\<exists>g'. updateToken dt speed mainWinProducts i g = Some g'"
proof -
  let ?t = "tokens g ! i"
  from assms have ok: "\<forall>t\<in>set (tokens g). tokenOK t" "tokenOK ?t"
    by (simp_all add: gameInv_def wellFormed_def)
  show ?thesis
  proof (cases "moving ?t")
    case False
    then show ?thesis by (simp add: updateToken_def Let_def)
  next
    case True
    with ok(2) have "tokenOK (arrive ?t)" by (intro tokenOK_arrive)
    with ok(1) have "\<forall>t\<in>set ((tokens g)[i := arrive ?t]). tokenOK t"
      by (rule tokensOK_update)
    from checkWin_defined [OF this] obtain won where
      "checkWin ((tokens g)[i := arrive ?t]) (owner ?t) mainWinProducts = Some won" by blast
    with True show ?thesis by (simp add: updateToken_def Let_def arrive_def)
  qed
qed

lemma updateTokens_loop_defined:
  assumes "gameInv g" "\<forall>i\<in>set is. i < length (tokens g)"
  shows "\<exists>g'. updateTokens_loop dt speed mainWinProducts is g = Some g'"
  using assms
proof (induction "is" arbitrary: g)
  case Nil
  then show ?case by simp
next
  case (Cons i "is")
  then have i: "i < length (tokens g)" by simp
  from updateToken_defined [OF Cons.prems(1) i] obtain g1 where
    g1: "updateToken dt speed mainWinProducts i g = Some g1" by blast
  from updateToken_inv [OF Cons.prems(1) i g1]
  have "gameInv g1" "length (tokens g1) = length (tokens g)" by simp_all
  with Cons.prems(2) have "\<exists>g'. updateTokens_loop dt speed mainWinProducts is g1 = Some g'"
    by (intro Cons.IH) simp_all
  with g1 show ?case by simp
qed

text \<open>
  From a reachable state every event and every motion update yields a next state: the
  handlers never read outside the tables, follow a dangling selection or divide by zero.
\<close>

lemma reachable_defined:
  assumes "reachable texA texB g"
  shows "(\<exists>f g'. handleEvent texA texB mainWinProducts ev g = Some (f, g')) \<and>
         (\<exists>g'. updateTokens dt speed mainWinProducts g = Some g')"
proof -
  note inv = reachable_gameInv [OF assms]
  have "\<exists>g'. updateTokens dt speed mainWinProducts g = Some g'"
    unfolding updateTokens_def by (rule updateTokens_loop_defined [OF inv]) simp
  with handleEvent_defined [OF inv] show ?thesis by blast
qed

subsection \<open>Runs of the main loop\<close>

lemma handleEvents_reachable:
  assumes "reachable texA texB g" "handleEvents texA texB mainWinProducts evs g = Some (rest, g')"
  shows "reachable texA texB g'"
  using assms
proof (induction evs arbitrary: g)
  case Nil
  then show ?case by simp
next
  case (Cons ev evs)
  show ?case
  proof (cases "windowOpen g")
    case False
    with Cons.prems show ?thesis by simp
  next
    case True
    with Cons.prems(2) obtain f g1 where
      h: "handleEvent texA texB mainWinProducts ev g = Some (f, g1)"
      by (auto split: option.splits)
    with Cons.prems(1) have r1: "reachable texA texB g1" by (rule reach_event)
    show ?thesis
    proof (cases f)
      case Returned
      with Cons.prems(2) True h r1 show ?thesis by simp
    next
      case Continue
      with Cons.prems(2) True h have "handleEvents texA texB mainWinProducts evs g1 = Some (rest, g')"
        by simp
      with r1 show ?thesis by (rule Cons.IH)
    qed
  qed
qed

lemma mainLoop_reachable:
  assumes "reachable texA texB g" "\<forall>fr\<in>set frames. 0 < snd fr"
    "mainLoop texA texB frames pending g = Some g'"
  shows "reachable texA texB g'"
  using assms
proof (induction frames arbitrary: g pending)
  case Nil
  then show ?case by simp
next
  case (Cons fr frames)
  obtain evs dt where fr: "fr = (evs, dt)" by (cases fr)
  show ?case
  proof (cases "windowOpen g")
    case False
    with Cons.prems fr show ?thesis by simp
  next
    case True
    with Cons.prems(3) fr obtain rest g1 g2 where
      s: "handleEvents texA texB mainWinProducts (pending @ evs) g = Some (rest, g1)"
         "updateTokens dt 400 mainWinProducts g1 = Some g2"
         "mainLoop texA texB frames rest g2 = Some g'"
      by (auto split: option.splits)
    from Cons.prems(1) s(1) have "reachable texA texB g1" by (rule handleEvents_reachable)
    moreover have "0 < dt" using Cons.prems(2) fr by simp
    ultimately have "reachable texA texB g2" using s(2) by (rule reach_update)
    then show ?thesis using Cons.prems(2) s(3) by (intro Cons.IH [of g2 rest]) simp_all
  qed
qed

lemma vlen_vertical: "vlen (0, d) = \<bar>d\<bar>"
  by (simp add: vlen_def)

lemma tokenAt_eval:
  "tokenAt pl 0 = newToken (50, 50) pl 0 \<lparr>position = (50, 50), prime = 13\<rparr>"
  "tokenAt pl 1 = newToken (50, 50) pl 1 \<lparr>position = (300, 50), prime = 3\<rparr>"
  "tokenAt pl 2 = newToken (50, 50) pl 2 \<lparr>position = (550, 50), prime = 23\<rparr>"
  "tokenAt pl 3 = newToken (50, 50) pl 3 \<lparr>position = (50, 300), prime = 17\<rparr>"
  "tokenAt pl 4 = newToken (50, 50) pl 4 \<lparr>position = (300, 300), prime = 11\<rparr>"
  "tokenAt pl 5 = newToken (50, 50) pl 5 \<lparr>position = (550, 300), prime = 5\<rparr>"
  "tokenAt pl 6 = newToken (50, 50) pl 6 \<lparr>position = (50, 550), prime = 29\<rparr>"
  "tokenAt pl 7 = newToken (50, 50) pl 7 \<lparr>position = (300, 550), prime = 7\<rparr>"
  "tokenAt pl 8 = newToken (50, 50) pl 8 \<lparr>position = (550, 550), prime = 19\<rparr>"
  by (simp_all add: tokenAt_def slots_def)

lemma inFlight_eval:
  "inFlight t 2 pos = (beginMove t 2 \<lparr>position = (550, 50), prime = 23\<rparr>)\<lparr>spritePos := pos\<rparr>"
  "inFlight t 4 pos = (beginMove t 4 \<lparr>position = (300, 300), prime = 11\<rparr>)\<lparr>spritePos := pos\<rparr>"
  by (simp_all add: inFlight_def inTransit_def slots_def)

lemma replicate_unfold: "replicate (numeral k) x = x # replicate (pred_numeral k) x"
  by (simp add: numeral_eq_Suc)

lemmas run_simps = idle_def replicate_unfold click_def handleEvent_def handleClick_def
  placeClick_def moveClick_def getFreeSlot_unfold contains_def mkRect_def Let_def
  newToken_def at_index_slots_eval occupies_def checkWin_def mainWinProducts_eval
  mul32_def wrap32_def inc32_def rem32_def other_def updateTokens_def updateToken_def
  vsub_def vadd_def getGlobalBounds_def beginMove_def resetGame_def initialGame_def
  instructionsButtonBounds_def aboutButtonBounds_def exitButtonBounds_def isAdjacent_eval
  vlen_vertical tokenAt_eval arrive_def

lemma frames_positive:
  "\<forall>fr\<in>set openingFrames. 0 < snd fr" "\<forall>fr\<in>set scenario1Frames. 0 < snd fr"
  "\<forall>fr\<in>set doubleMoveFrames. 0 < snd fr" "\<forall>fr\<in>set winningMoveFrames. 0 < snd fr"
  by (auto simp: openingFrames_def scenario1Frames_def doubleMoveFrames_def
      winningMoveFrames_def click_def idle_def)

lemma opening_run:
  "mainLoop (50, 50) (50, 50) openingFrames [] initialGame = Some movementStart"
  unfolding openingFrames_def movementStart_def
  by (simp add: run_simps)

lemma placement_run:
  "mainLoop (50, 50) (50, 50) [click 300 490, click 50 50] [] initialGame = Some placementState"
  unfolding placementState_def by (simp add: run_simps)

lemma scenario1_run:
  "mainLoop (50, 50) (50, 50) scenario1Frames [] initialGame = Some scenario1Win"
  unfolding scenario1Frames_def scenario1Win_def scenario1_def by (simp add: run_simps)

lemma selected_run:
  "mainLoop (50, 50) (50, 50) (openingFrames @ [click 550 300]) [] initialGame
     = Some selectedState"
  unfolding openingFrames_def selectedState_def by (simp add: run_simps)

lemma doubleMove_run:
  "mainLoop (50, 50) (50, 50) doubleMoveFrames [] initialGame = Some doubleMoveState"
  unfolding doubleMoveFrames_def openingFrames_def doubleMoveState_def
  by (simp add: run_simps inFlight_eval)

lemma reachable_examples:
  "reachable (50, 50) (50, 50) placementState"
  "reachable (50, 50) (50, 50) scenario1Win"
  "reachable (50, 50) (50, 50) selectedState"
  "reachable (50, 50) (50, 50) doubleMoveState"
proof -
  show "reachable (50, 50) (50, 50) placementState"
    by (rule mainLoop_reachable [OF reach_init _ placement_run]) (simp add: click_def)
  show "reachable (50, 50) (50, 50) scenario1Win"
    by (rule mainLoop_reachable [OF reach_init frames_positive(2) scenario1_run])
  show "reachable (50, 50) (50, 50) selectedState"
    by (rule mainLoop_reachable [OF reach_init _ selected_run])
       (simp add: openingFrames_def click_def)
  show "reachable (50, 50) (50, 50) doubleMoveState"
    by (rule mainLoop_reachable [OF reach_init frames_positive(3) doubleMove_run])
qed

theorem one_token_per_slot_witness:
  "reachable (50, 50) (50, 50) doubleMoveState \<and>
   length (filter (\<lambda>t. slotIndex t = 2 \<or> (moving t \<and> nextSlotIndex t = 2))
             (tokens doubleMoveState)) \<le> 1 \<and>
   length (filter (\<lambda>t. slotIndex t = 2 \<or> (moving t \<and> nextSlotIndex t = 2))
             (tokens doubleMoveState)) = 1"
proof -
  have "length (filter (\<lambda>t. slotIndex t = 2 \<or> (moving t \<and> nextSlotIndex t = 2))
             (tokens doubleMoveState)) = 1"
    by (simp add: doubleMoveState_def tokenAt_simps inFlight_def inTransit_simps)
  with one_token_per_slot [OF reachable_examples(4), of 2] reachable_examples(4)
  show ?thesis by simp
qed

text \<open>
  Claim C9 fails on the code. The guard of the Movement branch only asks that the
  selected token is not moving, and the turn passes on at arrival, not at the start of a
  slide. So the player to move can select a second token and start it while the first is
  still in transit: the run below reaches a state with two tokens of A in transit.
\<close>

theorem two_tokens_in_transit:
  "mainLoop (50, 50) (50, 50) doubleMoveFrames [] initialGame = Some doubleMoveState \<and>
   reachable (50, 50) (50, 50) doubleMoveState \<and>
   map owner (filter moving (tokens doubleMoveState)) = [A, A] \<and>
   turn doubleMoveState = A"
  using doubleMove_run reachable_examples(4)
  by (simp add: doubleMoveState_def tokenAt_simps inFlight_def inTransit_simps)

text \<open>
  Claim C2 fails on the code for a move that wins. In the run below A's token arrives on
  slot 2 and completes the row 0, 1, 2: the phase becomes Win and the turn passes to B
  all the same.
\<close>

theorem winning_move_switches_turn:
  "map_option (\<lambda>g. (phase g, turn g, map owner (filter moving (tokens g))))
     (mainLoop (50, 50) (50, 50) winningMoveFrames [] initialGame)
     = Some (Movement, A, [A]) \<and>
   map_option (\<lambda>g. (phase g, turn g, map owner (filter moving (tokens g))))
     (mainLoop (50, 50) (50, 50) (winningMoveFrames @ [idle]) [] initialGame)
     = Some (Win, B, [])"
  unfolding winningMoveFrames_def openingFrames_def
  by (simp add: run_simps)

text \<open>
  Claim C8 fails on the code. The run of the double move goes on without any event. The
  first token lands on slot 2 and, with the second still counted on its origin slot 1,
  completes the row 0, 1, 2: the phase is Win and the turn has passed to B. No reset
  follows, yet 20 frames later \<open>updateTokens\<close> lands the second token on slot 4 and
  passes the turn back to A.
\<close>

theorem win_phase_motion_continues:
  "map_option (\<lambda>g. (phase g, turn g, map slotIndex (tokens g), map moving (tokens g)))
     (mainLoop (50, 50) (50, 50) lateArrivalFrames [] initialGame)
     = Some (Win, B, [0, 3, 1, 7, 2, 8], [False, False, True, False, False, False]) \<and>
   map_option (\<lambda>g. (phase g, turn g, map slotIndex (tokens g), map moving (tokens g)))
     (mainLoop (50, 50) (50, 50) (lateArrivalFrames @ replicate 20 idle) [] initialGame)
     = Some (Win, A, [0, 3, 4, 7, 2, 8], [False, False, False, False, False, False])"
  unfolding lateArrivalFrames_def doubleMoveFrames_def openingFrames_def
  by (simp add: run_simps)

lemma win_phase_clicks_example:
  "phase scenario1Win = Win \<and> reachable (50, 50) (50, 50) scenario1Win \<and>
   handleClick (50, 50) (50, 50) mainWinProducts scenario1Win (550, 550)
     = Some (Continue, scenario1Win) \<and>
   updateTokens (1 / 60) 400 mainWinProducts scenario1Win = Some scenario1Win"
proof -
  have p: "phase scenario1Win = Win" by (simp add: scenario1Win_def)
  have r: "\<forall>t\<in>set (tokens scenario1Win). \<not> moving t"
    by (simp add: scenario1Win_def scenario1_def tokenAt_simps)
  from win_phase_clicks [OF p, of "(50, 50)" "(50, 50)" mainWinProducts "(550, 550)"]
    updateTokens_at_rest [OF r, of "1 / 60" 400 mainWinProducts] p reachable_examples(2)
  show ?thesis
    by (simp add: scenario1Win_def contains_def mkRect_def exitButtonBounds_def)
qed

theorem placement_on_taken_slot_ignored_witness:
  "phase placementState = Placement \<and> reachable (50, 50) (50, 50) placementState \<and>
   underMouse (60, 40) 0 \<and> list_ex (\<lambda>t. slotIndex t = 0) (tokens placementState) \<and>
   handleClick (50, 50) (50, 50) mainWinProducts placementState (60, 40)
     = Some (Continue, placementState) \<and>
   phase reservedState = Placement \<and> underMouse (300, 50) 1 \<and>
   \<not> list_ex (\<lambda>t. slotIndex t = 1) (tokens reservedState) \<and>
   list_ex (\<lambda>t. moving t \<and> nextSlotIndex t = 1) (tokens reservedState) \<and>
   handleClick (50, 50) (50, 50) mainWinProducts reservedState (300, 50)
     = Some (Continue, reservedState) \<and>
   getFreeSlotUnderMouse (300, 50) (map (\<lambda>t. t\<lparr>moving := False\<rparr>) (tokens reservedState)) = 1"
proof -
  have p: "phase placementState = Placement" "phase reservedState = Placement"
    by (simp_all add: placementState_def reservedState_def)
  have b: "\<not> contains (startButtonBounds placementState) (60, 40)"
    "\<not> contains (startButtonBounds reservedState) (300, 50)"
    by (simp_all add: placementState_def reservedState_def contains_def mkRect_def)
  have s: "(0::int) \<in> set slot_ids" "(1::int) \<in> set slot_ids" by (simp_all add: slot_ids_def)
  have u: "underMouse (60, 40) 0" "underMouse (300, 50) 1" by (simp_all add: underMouse_eval)
  have o: "list_ex (\<lambda>t. slotIndex t = 0) (tokens placementState)"
    by (simp add: placementState_def tokenAt_simps)
  have n: "\<not> list_ex (\<lambda>t. slotIndex t = 1) (tokens reservedState)"
    and m: "list_ex (\<lambda>t. moving t \<and> nextSlotIndex t = 1) (tokens reservedState)"
    by (simp_all add: reservedState_def inTransit_simps tokenAt_simps)
  have t0: "(\<exists>t\<in>set (tokens placementState). slotIndex t = 0) \<or>
         (\<exists>t\<in>set (tokens placementState). moving t \<and> nextSlotIndex t = 0)"
    using o by (simp add: list_ex_iff)
  have t1: "(\<exists>t\<in>set (tokens reservedState). slotIndex t = 1) \<or>
         (\<exists>t\<in>set (tokens reservedState). moving t \<and> nextSlotIndex t = 1)"
    using m by (simp add: list_ex_iff)
  have f: "getFreeSlotUnderMouse (300, 50)
       (map (\<lambda>t. t\<lparr>moving := False\<rparr>) (tokens reservedState)) = 1"
    by (simp add: reservedState_def getFreeSlot_unfold occupies_def inTransit_simps
        tokenAt_simps)
  from placement_on_taken_slot_ignored [OF p(1) b(1) s(1) u(1) t0, of "(50, 50)" "(50, 50)"
      mainWinProducts]
    placement_on_taken_slot_ignored [OF p(2) b(2) s(2) u(2) t1, of "(50, 50)" "(50, 50)"
      mainWinProducts]
    p reachable_examples(1) u o n m f
  show ?thesis by simp
qed

theorem move_accepted_iff_witness:
  "reachable (50, 50) (50, 50) selectedState \<and> phase selectedState = Movement \<and>
   moveAccepted selectedState (550, 50) 2 \<and>
   handleClick (50, 50) (50, 50) mainWinProducts selectedState (550, 50)
     = Some (Continue, slideTo selectedState 2) \<and>
   slideTo selectedState 2 \<noteq> selectedState \<and>
   underMouse (50, 550) 6 \<and> slotFree (tokens selectedState) 6 \<and>
   handleClick (50, 50) (50, 50) mainWinProducts selectedState (50, 550)
     = Some (Continue, selectedState)"
proof -
  note r = reachable_examples(3)
  have p: "phase selectedState = Movement" by (simp add: selectedState_def)
  have b: "\<not> contains (startButtonBounds selectedState) q" if "snd q < 600" for q
    using that by (simp add: selectedState_def contains_def mkRect_def)
  have h1: "\<forall>t\<in>set (tokens selectedState).
      \<not> (owner t = turn selectedState \<and> contains (getGlobalBounds t) (550, 50))"
    by (simp add: selectedState_def tokenAt_eval newToken_def getGlobalBounds_def
        contains_def mkRect_def vsub_def)
  have h2: "\<forall>t\<in>set (tokens selectedState).
      \<not> (owner t = turn selectedState \<and> contains (getGlobalBounds t) (50, 550))"
    by (simp add: selectedState_def tokenAt_eval newToken_def getGlobalBounds_def
        contains_def mkRect_def vsub_def)
  have a: "moveAccepted selectedState (550, 50) 2"
    by (simp add: moveAccepted_def selectedState_def tokenAt_simps slotFree_def
        underMouse_eval isAdjacent_eval)
  have n: "\<not> moveAccepted selectedState (50, 550) S" for S
  proof
    assume m: "moveAccepted selectedState (50, 550) S"
    from slot_cases [OF moveAccepted_slot [OF m]] m show False
      by (elim disjE; simp add: moveAccepted_def selectedState_def tokenAt_simps
          underMouse_eval isAdjacent_eval)
  qed
  have f: "underMouse (50, 550) 6" "slotFree (tokens selectedState) 6"
    by (simp_all add: underMouse_eval slotFree_def selectedState_def tokenAt_simps)
  from move_accepted_iff [OF r p b h1, of mainWinProducts]
    move_accepted_iff [OF r p b h2, of mainWinProducts] r p a n f
  show ?thesis by simp
qed

end
